theory Spec2Isabelle
  imports Complex_Main "HOL-Library.Word"
begin

unbundle bit_operations_syntax

chapter \<open>Edge AI Translator: scheduler, retry, cache, batch splitter, orchestrator\<close>

section \<open>JavaScript values used by the model\<close>

text \<open>
  A JavaScript string is a sequence of UTF-16 code units (\<open>charCodeAt\<close>, \<open>length\<close> and the
  regular expressions of the source all work on code units), so it is a list of 16-bit words.
  \<open>js\<close> writes an ASCII literal. Millisecond timestamps and delays are integers
  (\<open>Date.now()\<close>); the token count of the rate limiter is fractional and is a rational
  number, that is, the arithmetic of the source's doubles without rounding.
\<close>

type_synonym jsstring = "16 word list"

definition js :: "string \<Rightarrow> jsstring" where
  "js s = map (\<lambda>c. of_nat (of_char c)) s"

text \<open>\<open>x | 0\<close> on an integral number: conversion to a signed 32-bit integer, wrapping.\<close>

definition to_int32 :: "int \<Rightarrow> int" where
  "to_int32 x = sint (word_of_int x :: 32 word)"

text \<open>\<open>const clamp = (v, lo, hi) => Math.min(hi, Math.max(lo, v))\<close>\<close>

definition clamp :: "'a::linorder \<Rightarrow> 'a \<Rightarrow> 'a \<Rightarrow> 'a" where
  "clamp v lo hi = min hi (max lo v)"

text \<open>
  \<open>sleep(ms)\<close> arms a timer of \<open>Math.max(0, ms | 0)\<close> milliseconds; \<open>sleep_ms\<close> is that
  duration. The argument of \<open>| 0\<close> is truncated towards zero first.
\<close>

definition trunc :: "rat \<Rightarrow> int" where
  "trunc r = (if r < 0 then \<lceil>r\<rceil> else \<lfloor>r\<rfloor>)"

definition sleep_ms :: "rat \<Rightarrow> int" where
  "sleep_ms ms = max 0 (to_int32 (trunc ms))"

section \<open>Backoff\<close>

text \<open>
  \<open>randBetween(a, b)\<close> on integers: the value of \<open>Math.random()\<close>, a number in \<open>[0, 1)\<close>,
  is the extra argument \<open>u\<close>. The product \<open>u * (hi - lo + 1)\<close> is taken exactly; the rounded
  product of the source stays below \<open>hi - lo + 1\<close> as well, so both range over the integers
  from \<open>lo\<close> to \<open>hi\<close>.
\<close>

definition randBetween :: "int \<Rightarrow> int \<Rightarrow> rat \<Rightarrow> int" where
  "randBetween a b u =
     (let lo = to_int32 (min a b);
          hi = to_int32 (max a b)
      in lo + \<lfloor>u * of_int (hi - lo + 1)\<rfloor>)"

text \<open>
  The numbers of \<open>computeBackoffDelay\<close>. Its arguments are taken to be integers (the
  options page stores the retry settings through \<open>clampInt\<close>); what it computes from them is
  an integer, an infinity or \<open>NaN\<close>. \<open>Math.pow(2, n)\<close> for an integer \<open>n \<ge> 0\<close> is the power
  itself up to \<open>n = 1023\<close> and \<open>Infinity\<close> from \<open>n = 1024\<close> on. The product of an integer
  \<open>b\<close> and a power of two is exact as long as its magnitude is below \<open>2^1024\<close> and an
  infinity of its sign otherwise; \<open>0 * Infinity\<close> is \<open>NaN\<close>. \<open>Math.min\<close> returns \<open>NaN\<close> when
  an argument is \<open>NaN\<close>. \<open>js_le\<close> is the operator \<open><=\<close>, false whenever \<open>NaN\<close> is compared.
\<close>

datatype jsnum = Num int | PosInf | NegInf | NaN

definition js_pow2 :: "int \<Rightarrow> jsnum" where
  "js_pow2 n = (if 1024 \<le> n then PosInf else Num (2 ^ nat n))"

definition js_times :: "int \<Rightarrow> jsnum \<Rightarrow> jsnum" where
  "js_times b p =
     (case p of
        Num x \<Rightarrow>
          if 2 ^ 1024 \<le> \<bar>b * x\<bar> then (if 0 < b * x then PosInf else NegInf) else Num (b * x)
      | PosInf \<Rightarrow> (if b = 0 then NaN else if 0 < b then PosInf else NegInf)
      | NegInf \<Rightarrow> (if b = 0 then NaN else if 0 < b then NegInf else PosInf)
      | NaN \<Rightarrow> NaN)"

definition js_min :: "jsnum \<Rightarrow> int \<Rightarrow> jsnum" where
  "js_min x m = (case x of Num a \<Rightarrow> Num (min a m) | PosInf \<Rightarrow> Num m | NegInf \<Rightarrow> NegInf | NaN \<Rightarrow> NaN)"

fun js_le :: "jsnum \<Rightarrow> jsnum \<Rightarrow> bool" where
  "js_le NaN y = False"
| "js_le x NaN = False"
| "js_le NegInf y = True"
| "js_le x PosInf = True"
| "js_le (Num a) (Num b) = (a \<le> b)"
| "js_le x y = False"

text \<open>
  \<open>computeBackoffDelay(attempt, baseMs, maxMs, jitter)\<close>; \<open>u1\<close> and \<open>u2\<close> are the two
  values of \<open>Math.random()\<close> drawn when \<open>jitter\<close> is set (the percentage, then the delay).
  Without jitter the result is \<open>d = Math.min(expo, maxMs)\<close> as it is. With jitter and a
  finite \<open>d\<close>, \<open>delta = Math.floor((d * jitterPct) / 100)\<close> and the bounds \<open>d - delta\<close> and
  \<open>d + delta\<close> are computed on integers; doubles compute the same as long as
  \<open>30 * |d| < 2^53\<close>, the product then being exact and the rounded quotient having the floor
  of the exact one. With jitter and \<open>d\<close> infinite or \<open>NaN\<close>, one of \<open>d - delta\<close> and
  \<open>d + delta\<close> is \<open>NaN\<close>, so both \<open>Math.min(a, b) | 0\<close> and \<open>Math.max(a, b) | 0\<close> are 0, and
  the result is \<open>0 + Math.floor(Math.random() * 1)\<close>, which is 0.
\<close>

definition computeBackoffDelay :: "int \<Rightarrow> int \<Rightarrow> int \<Rightarrow> bool \<Rightarrow> rat \<Rightarrow> rat \<Rightarrow> jsnum" where
  "computeBackoffDelay attempt baseMs maxMs jitter u1 u2 =
     (let expo = js_times baseMs (js_pow2 (max 0 (attempt - 1)));
          d = js_min expo maxMs
      in if jitter then
           (case d of
              Num x \<Rightarrow>
                (let jitterPct = randBetween 10 30 u1;
                     delta = (x * jitterPct) div 100
                 in Num (randBetween (x - delta) (x + delta) u2))
            | _ \<Rightarrow> Num 0)
         else d)"

section \<open>Retry: error objects and the default classifier\<close>

text \<open>
  The error objects of the source: an \<open>Error\<close> with a \<open>name\<close>, a \<open>message\<close> and, where
  the thrower sets one, a numeric \<open>status\<close> (\<open>typeof e.status === 'number'\<close>).
\<close>

record js_error =
  e_name :: jsstring
  e_status :: "int option"
  e_message :: jsstring

text \<open>\<open>class AbortError extends Error\<close>, constructed with the default message.\<close>

definition AbortError :: js_error where
  "AbortError = \<lparr>e_name = js ''AbortError'', e_status = None, e_message = js ''Aborted''\<rparr>"

text \<open>\<open>new Error(msg)\<close> and \<open>new Error(msg)\<close> followed by \<open>err.status = st\<close>.\<close>

definition Error :: "jsstring \<Rightarrow> js_error" where
  "Error msg = \<lparr>e_name = js ''Error'', e_status = None, e_message = msg\<rparr>"

definition ErrorWithStatus :: "jsstring \<Rightarrow> int \<Rightarrow> js_error" where
  "ErrorWithStatus msg st = \<lparr>e_name = js ''Error'', e_status = Some st, e_message = msg\<rparr>"

text \<open>The character classes \<open>\w\<close>, \<open>\d\<close> and \<open>\s\<close> of a JavaScript regular expression.\<close>

definition is_word :: "16 word \<Rightarrow> bool" where
  "is_word c = ((0x30 \<le> c \<and> c \<le> 0x39) \<or> (0x41 \<le> c \<and> c \<le> 0x5A) \<or> c = 0x5F
              \<or> (0x61 \<le> c \<and> c \<le> 0x7A))"

definition is_digit :: "16 word \<Rightarrow> bool" where
  "is_digit c = (0x30 \<le> c \<and> c \<le> 0x39)"

definition is_space :: "16 word \<Rightarrow> bool" where
  "is_space c = ((0x09 \<le> c \<and> c \<le> 0x0D) \<or> c = 0x20 \<or> c = 0xA0 \<or> c = 0x1680
               \<or> (0x2000 \<le> c \<and> c \<le> 0x200A) \<or> c = 0x2028 \<or> c = 0x2029 \<or> c = 0x202F
               \<or> c = 0x205F \<or> c = 0x3000 \<or> c = 0xFEFF)"

fun strip_prefix :: "jsstring \<Rightarrow> jsstring \<Rightarrow> jsstring option" where
  "strip_prefix [] s = Some s"
| "strip_prefix (p # ps) [] = None"
| "strip_prefix (p # ps) (c # cs) = (if p = c then strip_prefix ps cs else None)"

text \<open>
  \<open>/\bHTTP\s+(\d{3})\b/\<close> tried at one position whose left neighbour is not a word
  character: the letters, one or more white-space characters (the greedy \<open>\s+\<close> takes them
  all, and giving one back leaves a white-space character where a digit is required),
  exactly three digits, and then no word character. The result is \<open>Number(m[1])\<close>.
\<close>

definition http_here :: "jsstring \<Rightarrow> int option" where
  "http_here s =
     (case strip_prefix (js ''HTTP'') s of
        None \<Rightarrow> None
      | Some r \<Rightarrow>
          (let r' = dropWhile is_space r in
           if length r' = length r then None
           else (case r' of
                   d1 # d2 # d3 # rest \<Rightarrow>
                     if is_digit d1 \<and> is_digit d2 \<and> is_digit d3
                        \<and> (case rest of [] \<Rightarrow> True | c # _ \<Rightarrow> \<not> is_word c)
                     then Some (100 * (uint d1 - 48) + 10 * (uint d2 - 48) + (uint d3 - 48))
                     else None
                 | _ \<Rightarrow> None)))"

text \<open>
  The search of \<open>String.prototype.match\<close>: the leftmost position where the expression
  matches. \<open>prevw\<close> tells whether the character before the position is a word character
  (\<open>\b\<close> before the word character \<open>H\<close> asks that it is not).
\<close>

fun http_search :: "bool \<Rightarrow> jsstring \<Rightarrow> int option" where
  "http_search prevw [] = None"
| "http_search prevw (c # cs) =
     (if prevw then http_search (is_word c) cs
      else (case http_here (c # cs) of
              Some n \<Rightarrow> Some n
            | None \<Rightarrow> http_search (is_word c) cs))"

text \<open>
  \<open>function extractStatus(e)\<close>, on an error object (\<open>!e\<close> is false):
  the numeric status when there is one, else the code found in the message, else 0.
\<close>

definition extractStatus :: "js_error \<Rightarrow> int" where
  "extractStatus e =
     (case e_status e of
        Some st \<Rightarrow> st
      | None \<Rightarrow> (case http_search False (e_message e) of Some n \<Rightarrow> n | None \<Rightarrow> 0))"

text \<open>
  What \<open>/\bHTTP\s+(\d{3})\b/\<close> matches, told by positions. The expression matches the string
  \<open>s\<close> from position \<open>i\<close> with its digits at position \<open>j\<close> when the code unit before \<open>i\<close>, if
  there is one, is not a word character, the four letters stand at \<open>i\<close>, the code units from
  \<open>i + 4\<close> up to \<open>j\<close> are white space and there is at least one, three digits stand at \<open>j\<close>, and
  the code unit after them, if there is one, is not a word character. \<open>code_at s j\<close> is the
  number the three digits write. \<open>first_http s i j\<close> says that this is the leftmost match,
  the one \<open>String.prototype.match\<close> returns: the expression matches from no position before
  \<open>i\<close>; \<open>no_http_before s (length s)\<close> says that it matches nowhere.
\<close>

definition http_at :: "jsstring \<Rightarrow> nat \<Rightarrow> nat \<Rightarrow> bool" where
  "http_at s i j =
     ((i = 0 \<or> \<not> is_word (s ! (i - 1)))
      \<and> take 4 (drop i s) = js ''HTTP''
      \<and> i + 4 < j \<and> list_all is_space (take (j - (i + 4)) (drop (i + 4) s))
      \<and> j + 3 \<le> length s \<and> list_all is_digit (take 3 (drop j s))
      \<and> (j + 3 = length s \<or> \<not> is_word (s ! (j + 3))))"

definition code_at :: "jsstring \<Rightarrow> nat \<Rightarrow> int" where
  "code_at s j = 100 * (uint (s ! j) - 48) + 10 * (uint (s ! (j + 1)) - 48) + (uint (s ! (j + 2)) - 48)"

definition no_http_before :: "jsstring \<Rightarrow> nat \<Rightarrow> bool" where
  "no_http_before s i =
     list_all (\<lambda>i'. list_all (\<lambda>j'. \<not> http_at s i' j') [0..<Suc (length s)]) [0..<i]"

definition first_http :: "jsstring \<Rightarrow> nat \<Rightarrow> nat \<Rightarrow> bool" where
  "first_http s i j = (http_at s i j \<and> no_http_before s i)"

text \<open>
  Matching with the flag \<open>i\<close>: two code units are equal up to case when their upper-case
  forms agree; a code unit outside ASCII never equals an ASCII letter this way, so only
  \<open>a\<close> to \<open>z\<close> are mapped.
\<close>

definition upper :: "16 word \<Rightarrow> 16 word" where
  "upper c = (if 0x61 \<le> c \<and> c \<le> 0x7A then c - 0x20 else c)"

fun ci_prefix :: "jsstring \<Rightarrow> jsstring \<Rightarrow> bool" where
  "ci_prefix [] s = True"
| "ci_prefix (p # ps) [] = False"
| "ci_prefix (p # ps) (c # cs) = (upper p = upper c \<and> ci_prefix ps cs)"

fun ci_contains :: "jsstring \<Rightarrow> jsstring \<Rightarrow> bool" where
  "ci_contains pat [] = ci_prefix pat []"
| "ci_contains pat (c # cs) = (ci_prefix pat (c # cs) \<or> ci_contains pat cs)"

text \<open>
  \<open>String(e.message || e)\<close>: the message when it is not empty, else \<open>String(e)\<close>, which
  for an error with an empty message is its name.
\<close>

definition error_text :: "js_error \<Rightarrow> jsstring" where
  "error_text e = (if e_message e \<noteq> [] then e_message e else e_name e)"

text \<open>
  \<open>function isNetworkError(e)\<close>:
  \<open>e.name === 'TypeError' || /NetworkError|Failed to fetch|net::ERR/i.test(String(e.message || e))\<close>.
\<close>

definition isNetworkError :: "js_error \<Rightarrow> bool" where
  "isNetworkError e =
     (e_name e = js ''TypeError''
      \<or> ci_contains (js ''NetworkError'') (error_text e)
      \<or> ci_contains (js ''Failed to fetch'') (error_text e)
      \<or> ci_contains (js ''net::ERR'') (error_text e))"

section \<open>Retry: \<open>withRetry\<close>\<close>

text \<open>
  The options of \<open>withRetry\<close>. \<open>isRetriable\<close> is \<open>None\<close> when the caller supplies no
  function. \<open>onRetry\<close> is the observation hook; it acts on the state \<open>'w\<close> of whatever the
  operation works on.
\<close>

record retry_info =
  ri_attempt :: int
  ri_delay :: jsnum
  ri_status :: int
  ri_error :: js_error

record 'w retry_opts =
  maxRetries :: int
  baseDelayMs :: int
  maxDelayMs :: int
  jitter :: bool
  retryOn :: "int list"
  isRetriable :: "(js_error \<Rightarrow> int \<Rightarrow> bool) option"
  onRetry :: "retry_info \<Rightarrow> 'w \<Rightarrow> 'w"

text \<open>
  The local \<open>retriable\<close> of \<open>withRetry\<close>:
  \<open>typeof isRetriable === 'function' ? !!isRetriable(e, attempt)
     : (isNetworkError(e) || retryOn.includes(status))\<close> with \<open>status = extractStatus(e)\<close>.
\<close>

definition retriable :: "('w, 'x) retry_opts_scheme \<Rightarrow> js_error \<Rightarrow> int \<Rightarrow> bool" where
  "retriable opts e attempt =
     (case isRetriable opts of
        Some f \<Rightarrow> f e attempt
      | None \<Rightarrow> isNetworkError e \<or> extractStatus e \<in> set (retryOn opts))"

text \<open>
  \<open>withRetry(fn, opts)\<close>. The operation \<open>fn(attempt)\<close> either returns (\<open>Inr\<close>) or throws
  (\<open>Inl\<close>), and changes the state it works on. The loop runs from \<open>attempt\<close>; the sleep
  between attempts only lets time pass. \<open>rnd k\<close> are the two values of \<open>Math.random()\<close>
  that the backoff of attempt \<open>k\<close> consumes.
\<close>

function withRetry_from ::
  "(int \<Rightarrow> 'w \<Rightarrow> (js_error + 'a) \<times> 'w) \<Rightarrow> 'w retry_opts \<Rightarrow> (int \<Rightarrow> rat \<times> rat) \<Rightarrow> int \<Rightarrow> 'w
     \<Rightarrow> (js_error + 'a) \<times> 'w" where
  "withRetry_from fn opts rnd attempt w =
     (case fn attempt w of
        (Inr v, w1) \<Rightarrow> (Inr v, w1)
      | (Inl e, w1) \<Rightarrow>
          if \<not> retriable opts e attempt \<or> attempt \<ge> maxRetries opts then (Inl e, w1)
          else
            (let attempt' = attempt + 1;
                 delay = computeBackoffDelay attempt' (baseDelayMs opts) (maxDelayMs opts)
                           (jitter opts) (fst (rnd attempt')) (snd (rnd attempt'));
                 w2 = onRetry opts \<lparr>ri_attempt = attempt', ri_delay = delay,
                                     ri_status = extractStatus e, ri_error = e\<rparr> w1
             in withRetry_from fn opts rnd attempt' w2))"
  by pat_completeness auto
termination
  by (relation "measure (\<lambda>(fn, opts, rnd, attempt, w). nat (maxRetries opts - attempt))") auto

definition withRetry ::
  "(int \<Rightarrow> 'w \<Rightarrow> (js_error + 'a) \<times> 'w) \<Rightarrow> 'w retry_opts \<Rightarrow> (int \<Rightarrow> rat \<times> rat) \<Rightarrow> 'w
     \<Rightarrow> (js_error + 'a) \<times> 'w" where
  "withRetry fn opts rnd w = withRetry_from fn opts rnd 0 w"

text \<open>The defaults of the destructuring in \<open>withRetry\<close>, with no classifier and no hook.\<close>

definition default_retry_opts :: "'w retry_opts" where
  "default_retry_opts =
     \<lparr>maxRetries = 5, baseDelayMs = 800, maxDelayMs = 20000, jitter = True,
      retryOn = [429, 500, 502, 503, 504], isRetriable = None, onRetry = (\<lambda>info w. w)\<rparr>"

section \<open>Batch splitter\<close>

text \<open>
  \<open>estimateTokens(s)\<close>: code units in the CJK, kana and hangul ranges count one token each,
  the others a quarter of a token, rounded up (\<open>Math.ceil(nonCjk / 4)\<close>).
\<close>

definition estimateTokens :: "jsstring \<Rightarrow> int" where
  "estimateTokens str =
     (let cjk = int (length (filter (\<lambda>ch. (0x4E00 \<le> ch \<and> ch \<le> 0x9FFF)
                                         \<or> (0x3040 \<le> ch \<and> ch \<le> 0x30FF)
                                         \<or> (0xAC00 \<le> ch \<and> ch \<le> 0xD7AF)) str));
          nonCjk = max 0 (int (length str) - cjk)
      in cjk + (nonCjk + 3) div 4)"

record budgets =
  maxItems :: int
  maxChars :: int
  tokenBudget :: int

text \<open>The local variables of \<open>splitInputsByBudget\<close>: the chunks emitted and the open chunk.\<close>

record split_state =
  out :: "jsstring list list"
  cur :: "jsstring list"
  curChars :: int
  curTokens :: int

text \<open>\<open>function flush() { if (cur.length) out.push(cur); cur = []; curChars = 0; curTokens = 0; }\<close>\<close>

definition flush :: "split_state \<Rightarrow> split_state" where
  "flush st = \<lparr>out = (if cur st \<noteq> [] then out st @ [cur st] else out st),
               cur = [], curChars = 0, curTokens = 0\<rparr>"

text \<open>The body of \<open>for (const t of inputs)\<close>.\<close>

definition split_step :: "budgets \<Rightarrow> split_state \<Rightarrow> jsstring \<Rightarrow> split_state" where
  "split_step b st txt =
     (let tChars = int (length txt);
          tTokens = estimateTokens txt;
          wouldItems = int (length (cur st)) + 1;
          wouldChars = curChars st + tChars;
          wouldTokens = curTokens st + tTokens;
          st1 = (if length (cur st) > 0
                    \<and> (wouldItems > maxItems b \<or> wouldChars > maxChars b \<or> wouldTokens > tokenBudget b)
                 then flush st else st);
          st2 = st1\<lparr>cur := cur st1 @ [txt],
                     curChars := curChars st1 + tChars,
                     curTokens := curTokens st1 + tTokens\<rparr>
      in if int (length (cur st2)) \<ge> maxItems b \<or> curChars st2 \<ge> maxChars b
            \<or> curTokens st2 \<ge> tokenBudget b
         then flush st2 else st2)"

fun split_loop :: "budgets \<Rightarrow> split_state \<Rightarrow> jsstring list \<Rightarrow> split_state" where
  "split_loop b st [] = st"
| "split_loop b st (t # ts) = split_loop b (split_step b st t) ts"

definition splitInputsByBudget :: "jsstring list \<Rightarrow> budgets \<Rightarrow> jsstring list list" where
  "splitInputsByBudget inputs b =
     out (flush (split_loop b \<lparr>out = [], cur = [], curChars = 0, curTokens = 0\<rparr> inputs))"

text \<open>The totals of a chunk, and what it is to stay below or within the three ceilings.\<close>

definition chunk_chars :: "jsstring list \<Rightarrow> int" where
  "chunk_chars c = sum_list (map (\<lambda>t. int (length t)) c)"

definition chunk_tokens :: "jsstring list \<Rightarrow> int" where
  "chunk_tokens c = sum_list (map estimateTokens c)"

definition below_budget :: "budgets \<Rightarrow> jsstring list \<Rightarrow> bool" where
  "below_budget b c = (int (length c) < maxItems b \<and> chunk_chars c < maxChars b
                \<and> chunk_tokens c < tokenBudget b)"

definition within_budget :: "budgets \<Rightarrow> jsstring list \<Rightarrow> bool" where
  "within_budget b c = (int (length c) \<le> maxItems b \<and> chunk_chars c \<le> maxChars b
                 \<and> chunk_tokens c \<le> tokenBudget b)"

text \<open>
  The chunk under construction stays strictly below every ceiling at each of its non-empty
  prefixes; an emitted chunk is not empty, stays within the ceilings when it has more than one
  item, and was below them at every proper prefix. \<open>split_inv\<close> is the loop invariant:
  \<open>xs\<close> are the inputs consumed so far.
\<close>

definition open_chunk :: "budgets \<Rightarrow> jsstring list \<Rightarrow> bool" where
  "open_chunk b c = (\<forall>n. 0 < n \<and> n \<le> length c \<longrightarrow> below_budget b (take n c))"

definition closed_chunk :: "budgets \<Rightarrow> jsstring list \<Rightarrow> bool" where
  "closed_chunk b c = (c \<noteq> [] \<and> (length c > 1 \<longrightarrow> within_budget b c)
                       \<and> (\<forall>n. 0 < n \<and> n < length c \<longrightarrow> below_budget b (take n c)))"

definition split_inv :: "budgets \<Rightarrow> jsstring list \<Rightarrow> split_state \<Rightarrow> bool" where
  "split_inv b xs st = (concat (out st) @ cur st = xs
                        \<and> curChars st = chunk_chars (cur st)
                        \<and> curTokens st = chunk_tokens (cur st)
                        \<and> (\<forall>c\<in>set (out st). closed_chunk b c)
                        \<and> open_chunk b (cur st))"

section \<open>Result cache (LRU with TTL)\<close>

text \<open>
  The values the cache holds: a translation (a string), or \<open>undefined\<close>, which is also what
  \<open>get\<close> returns for a miss. An entry is \<open>{ v, exp }\<close>. The \<open>Map\<close> of the source keeps its
  keys in insertion order, so it is an association list with distinct keys, oldest first.
\<close>

datatype jsval = Undefined | Str jsstring

record entry =
  ent_v :: jsval
  ent_exp :: int

record LRUCache =
  c_size :: int
  c_ttlMs :: int
  c_enabled :: bool
  c_map :: "(jsstring \<times> entry) list"

text \<open>\<open>Map.prototype.get\<close>, \<open>delete\<close> and \<open>set\<close>; \<open>set\<close> on a key already there keeps its place.\<close>

definition map_get :: "(jsstring \<times> entry) list \<Rightarrow> jsstring \<Rightarrow> entry option" where
  "map_get m key = map_of m key"

definition map_delete :: "(jsstring \<times> entry) list \<Rightarrow> jsstring \<Rightarrow> (jsstring \<times> entry) list" where
  "map_delete m key = filter (\<lambda>kv. fst kv \<noteq> key) m"

definition map_set :: "(jsstring \<times> entry) list \<Rightarrow> jsstring \<Rightarrow> entry \<Rightarrow> (jsstring \<times> entry) list" where
  "map_set m key e =
     (if key \<in> fst ` set m then map (\<lambda>kv. if fst kv = key then (key, e) else kv) m
      else m @ [(key, e)])"

text \<open>
  \<open>_isExpired(entry)\<close> for an entry that is there; \<open>now\<close> is \<open>Date.now()\<close>.
  \<open>if (!entry.exp || entry.exp <= 0) return false; return this._now() > entry.exp;\<close>
\<close>

definition isExpired :: "int \<Rightarrow> entry \<Rightarrow> bool" where
  "isExpired now e = (if ent_exp e = 0 \<or> ent_exp e \<le> 0 then False else now > ent_exp e)"

text \<open>\<open>_touch(key, entry)\<close>: delete and set again, which moves the key to the end.\<close>

definition touch :: "LRUCache \<Rightarrow> jsstring \<Rightarrow> entry \<Rightarrow> LRUCache" where
  "touch c key e = c\<lparr>c_map := map_set (map_delete (c_map c) key) key e\<rparr>"

text \<open>
  \<open>_evictIfNeeded()\<close>: while there are more entries than \<open>size\<close>, delete the first key;
  the loop breaks when there is no first key.
\<close>

function evictIfNeeded :: "LRUCache \<Rightarrow> LRUCache" where
  "evictIfNeeded c =
     (if int (length (c_map c)) > c_size c then
        (case c_map c of
           [] \<Rightarrow> c
         | kv # rest \<Rightarrow> evictIfNeeded (c\<lparr>c_map := map_delete (c_map c) (fst kv)\<rparr>))
      else c)"
  by pat_completeness auto
termination
proof (relation "measure (\<lambda>c. length (c_map c))")
  show "wf (measure (\<lambda>c. length (c_map c)))" by simp
next
  fix c :: LRUCache and kv rest
  assume "c_map c = kv # rest"
  then have "length (map_delete (c_map c) (fst kv)) \<le> length rest"
    by (simp add: map_delete_def)
  then show "(c\<lparr>c_map := map_delete (c_map c) (fst kv)\<rparr>, c) \<in> measure (\<lambda>c. length (c_map c))"
    using \<open>c_map c = kv # rest\<close> by simp
qed

text \<open>\<open>get(key)\<close>: the value returned and the cache after the call.\<close>

definition cache_get :: "LRUCache \<Rightarrow> int \<Rightarrow> jsstring \<Rightarrow> jsval \<times> LRUCache" where
  "cache_get c now key =
     (if \<not> c_enabled c then (Undefined, c)
      else (case map_get (c_map c) key of
              None \<Rightarrow> (Undefined, c)
            | Some e \<Rightarrow>
                if isExpired now e then (Undefined, c\<lparr>c_map := map_delete (c_map c) key\<rparr>)
                else (ent_v e, touch c key e)))"

text \<open>
  \<open>set(key, value, ttlMs)\<close>; \<open>ttlMs\<close> is \<open>None\<close> when the argument is left out
  (\<open>Number(ttlMs ?? this.ttlMs) || 0\<close>).
\<close>

definition cache_set :: "LRUCache \<Rightarrow> int \<Rightarrow> jsstring \<Rightarrow> jsval \<Rightarrow> int option \<Rightarrow> LRUCache" where
  "cache_set c now key value ttlMs =
     (if \<not> c_enabled c then c
      else
        (let ttl = (case ttlMs of None \<Rightarrow> c_ttlMs c | Some t \<Rightarrow> t);
             exp = (if ttl > 0 then now + ttl else 0);
             e = \<lparr>ent_v = value, ent_exp = exp\<rparr>;
             c1 = c\<lparr>c_map := map_set (c_map c) key e\<rparr>;
             c2 = touch c1 key e
         in evictIfNeeded c2))"

text \<open>\<open>has(key) { return this.get(key) !== undefined; }\<close>\<close>

definition cache_has :: "LRUCache \<Rightarrow> int \<Rightarrow> jsstring \<Rightarrow> bool \<times> LRUCache" where
  "cache_has c now key = (fst (cache_get c now key) \<noteq> Undefined, snd (cache_get c now key))"

text \<open>\<open>new LRUCache({ size, ttlMs, enabled })\<close> with the values given.\<close>

definition new_LRUCache :: "int \<Rightarrow> int \<Rightarrow> bool \<Rightarrow> LRUCache" where
  "new_LRUCache sz ttlMs enabled =
     \<lparr>c_size = max 1 (if sz = 0 then 500 else sz), c_ttlMs = max 0 ttlMs,
      c_enabled = enabled, c_map = []\<rparr>"

section \<open>Token bucket\<close>

text \<open>
  The state of \<open>class TokenBucket\<close>. \<open>nowMs()\<close> is the argument \<open>now\<close> of each operation.
\<close>

record TokenBucket =
  rps :: rat
  capacity :: int
  tokens :: rat
  lastRefill :: int

text \<open>The constructor: \<open>setRate(rps, burst)\<close> on a fresh object, then a full bucket.\<close>

definition new_TokenBucket :: "rat \<Rightarrow> rat \<Rightarrow> int \<Rightarrow> TokenBucket" where
  "new_TokenBucket r burst now =
     \<lparr>rps = max (1 / 1000) r, capacity = max 1 \<lfloor>burst\<rfloor>,
      tokens = of_int (max 1 \<lfloor>burst\<rfloor>), lastRefill = now\<rparr>"

definition setRate :: "TokenBucket \<Rightarrow> rat \<Rightarrow> rat \<Rightarrow> TokenBucket" where
  "setRate b r burst =
     b\<lparr>rps := max (1 / 1000) r, capacity := max 1 \<lfloor>burst\<rfloor>,
       tokens := min (tokens b) (of_int (max 1 \<lfloor>burst\<rfloor>))\<rparr>"

definition refill :: "TokenBucket \<Rightarrow> int \<Rightarrow> TokenBucket" where
  "refill b now =
     (let elapsed = of_int (now - lastRefill b) / 1000 in
      if elapsed > 0
      then b\<lparr>tokens := clamp (tokens b + elapsed * rps b) 0 (of_int (capacity b)), lastRefill := now\<rparr>
      else b)"

text \<open>
  One turn of the loop of \<open>take(n)\<close> at time \<open>now\<close>: refill, then either take the tokens
  (\<open>None\<close>: the call returns) or compute the time to sleep before the next turn.
  The token count and the time to sleep are computed on rationals, where the source rounds
  to doubles; nothing below depends on how long the loop of \<open>take\<close> runs, which rounding
  can change.
\<close>

definition take_step :: "TokenBucket \<Rightarrow> rat \<Rightarrow> int \<Rightarrow> TokenBucket \<times> int option" where
  "take_step b n now =
     (let b1 = refill b now in
      if tokens b1 \<ge> n then (b1\<lparr>tokens := tokens b1 - n\<rparr>, None)
      else
        (let deficit = n - tokens b1;
             waitSec = deficit / rps b1;
             waitMs = clamp (waitSec * 1000) 10 2000
         in (b1, Some (sleep_ms waitMs))))"

section \<open>Scheduler\<close>

text \<open>
  A queued item \<open>{ task, resolve, reject, signal }\<close>. \<open>ident\<close> names its promise. The signal
  is absent, or present with the time from which \<open>signal.aborted\<close> reads true, if it ever
  does. What the model has to know of the future is carried by the item: the time the task
  body takes and what it settles with, and the value \<open>Math.random()\<close> returns when the
  jitter of this item is drawn.
\<close>

datatype abort_signal = NoSignal | Signal "int option"

record item =
  ident :: nat
  signal :: abort_signal
  task_dur :: int
  task_result :: "js_error + jsval"
  jitter_draw :: rat

text \<open>\<open>item.signal?.aborted\<close> read at time \<open>now\<close>.\<close>

definition aborted :: "item \<Rightarrow> int \<Rightarrow> bool" where
  "aborted it now =
     (case signal it of NoSignal \<Rightarrow> False | Signal None \<Rightarrow> False | Signal (Some t) \<Rightarrow> t \<le> now)"

text \<open>
  \<open>runOne\<close> is an \<open>async\<close> function: it runs until an \<open>await\<close>, and goes on when the
  awaited timer or promise fires. \<open>kont\<close> names the places where it can be suspended:
  in the throttle sleep, in the jitter sleep, in a sleep of \<open>limiter.take\<close>, at
  \<open>await limiter.take(1)\<close> once the token is taken, and at \<open>await item.task()\<close>.
\<close>

datatype kont = AfterThrottle | AfterJitter | InTake | AfterTake | AfterTask

datatype progress = Suspended int kont | Done

text \<open>What can be observed of an item, with the time at which it happens.\<close>

datatype event = Started nat | TokenTaken nat | BodyStarted nat | Resolved nat jsval | Rejected nat js_error

text \<open>
  The variables that \<open>createScheduler\<close> closes over. \<open>waiting\<close> holds the suspended
  activations of \<open>runOne\<close> with the time at which each goes on; \<open>events\<close> is the log.
\<close>

record scheduler =
  maxConcurrent :: int
  jitterMin :: int
  jitterMax :: int
  limiter :: TokenBucket
  running :: int
  q :: "item list"
  tempThrottleUntil :: int
  sched_closed :: bool
  waiting :: "(int \<times> item \<times> kont) list"
  events :: "(int \<times> event) list"

text \<open>\<open>config.jitterMs\<close>: absent, a number, or an array of two numbers.\<close>

datatype jitter_cfg = JitterDefault | JitterNumber int | JitterRange int int

definition createScheduler :: "int \<Rightarrow> rat \<Rightarrow> rat \<Rightarrow> jitter_cfg \<Rightarrow> int \<Rightarrow> scheduler" where
  "createScheduler mc r burst jm now =
     \<lparr>maxConcurrent = max 1 mc,
      jitterMin = (case jm of JitterDefault \<Rightarrow> 50 | JitterNumber n \<Rightarrow> 0 | JitterRange a b \<Rightarrow> max 0 a),
      jitterMax = (case jm of JitterDefault \<Rightarrow> 200 | JitterNumber n \<Rightarrow> max 0 n
                   | JitterRange a b \<Rightarrow> max (max 0 a) b),
      limiter = new_TokenBucket r burst now,
      running = 0, q = [], tempThrottleUntil = 0, sched_closed = False,
      waiting = [], events = []\<rparr>"

text \<open>\<open>function throttleTemporarily(ms) { tempThrottleUntil = nowMs() + Math.max(0, ms | 0); }\<close>\<close>

definition throttleTemporarily :: "scheduler \<Rightarrow> int \<Rightarrow> int \<Rightarrow> scheduler" where
  "throttleTemporarily s now ms = s\<lparr>tempThrottleUntil := now + max 0 (to_int32 ms)\<rparr>"

text \<open>\<open>function getJitterDelay()\<close>, with the value \<open>u\<close> of \<open>Math.random()\<close>.\<close>

definition getJitterDelay :: "scheduler \<Rightarrow> rat \<Rightarrow> int" where
  "getJitterDelay s u = (if jitterMax s \<le> 0 then 0 else randBetween (jitterMin s) (jitterMax s) u)"

definition emit :: "int \<Rightarrow> event \<Rightarrow> scheduler \<Rightarrow> scheduler" where
  "emit now ev s = s\<lparr>events := events s @ [(now, ev)]\<rparr>"

text \<open>
  The \<open>finally\<close> clause of \<open>runOne\<close> without its call of \<open>pump()\<close>, which is made by
  whoever runs the activation (\<open>pump_loop\<close> and \<open>fire\<close> below).
\<close>

definition finish :: "scheduler \<Rightarrow> scheduler" where
  "finish s = s\<lparr>running := running s - 1\<rparr>"

text \<open>
  The pieces of \<open>runOne(item)\<close> between two suspensions, last first. Each runs at time
  \<open>now\<close> and ends suspended or done.

  After \<open>await item.task()\<close>: \<open>item.resolve(result)\<close>, or \<open>item.reject(e)\<close> in \<open>catch\<close>.
\<close>

definition after_task :: "item \<Rightarrow> int \<Rightarrow> scheduler \<Rightarrow> scheduler \<times> progress" where
  "after_task it now s =
     (case task_result it of
        Inr r \<Rightarrow> (finish (emit now (Resolved (ident it) r) s), Done)
      | Inl e \<Rightarrow> (finish (emit now (Rejected (ident it) e) s), Done))"

text \<open>After \<open>await limiter.take(1)\<close>: the task body is called and awaited.\<close>

definition after_take :: "item \<Rightarrow> int \<Rightarrow> scheduler \<Rightarrow> scheduler \<times> progress" where
  "after_take it now s = (emit now (BodyStarted (ident it)) s, Suspended (max 0 (task_dur it)) AfterTask)"

text \<open>One turn of the loop of \<open>limiter.take(1)\<close>.\<close>

definition in_take :: "item \<Rightarrow> int \<Rightarrow> scheduler \<Rightarrow> scheduler \<times> progress" where
  "in_take it now s =
     (case take_step (limiter s) (max (1 / 1000) 1) now of
        (b1, None) \<Rightarrow> (emit now (TokenTaken (ident it)) (s\<lparr>limiter := b1\<rparr>), Suspended 0 AfterTake)
      | (b1, Some w) \<Rightarrow> (s\<lparr>limiter := b1\<rparr>, Suspended w InTake))"

text \<open>\<open>if (item.signal?.aborted) throw new AbortError(); await limiter.take(1);\<close>\<close>

definition after_jitter :: "item \<Rightarrow> int \<Rightarrow> scheduler \<Rightarrow> scheduler \<times> progress" where
  "after_jitter it now s =
     (if aborted it now then (finish (emit now (Rejected (ident it) AbortError) s), Done)
      else in_take it now s)"

text \<open>\<open>const jitter = getJitterDelay(); if (jitter) await sleep(jitter);\<close>\<close>

definition after_throttle :: "item \<Rightarrow> int \<Rightarrow> scheduler \<Rightarrow> scheduler \<times> progress" where
  "after_throttle it now s =
     (let jitter = getJitterDelay s (jitter_draw it) in
      if jitter \<noteq> 0 then (s, Suspended (sleep_ms (of_int jitter)) AfterJitter)
      else after_jitter it now s)"

text \<open>
  The start of \<open>runOne(item)\<close>:
  \<open>running += 1; const now = nowMs();
    if (tempThrottleUntil > now) { const wait = clamp(tempThrottleUntil - now, 50, 2000); await sleep(wait); }\<close>
\<close>

definition runOne :: "item \<Rightarrow> int \<Rightarrow> scheduler \<Rightarrow> scheduler \<times> progress" where
  "runOne it now s =
     (let s1 = emit now (Started (ident it)) (s\<lparr>running := running s + 1\<rparr>) in
      if tempThrottleUntil s1 > now
      then (let wait = clamp (tempThrottleUntil s1 - now) 50 2000
            in (s1, Suspended (sleep_ms (of_int wait)) AfterThrottle))
      else after_throttle it now s1)"

text \<open>A suspended activation goes on.\<close>

definition resume :: "kont \<Rightarrow> item \<Rightarrow> int \<Rightarrow> scheduler \<Rightarrow> scheduler \<times> progress" where
  "resume k it now s =
     (case k of
        AfterThrottle \<Rightarrow> after_throttle it now s
      | AfterJitter \<Rightarrow> after_jitter it now s
      | InTake \<Rightarrow> in_take it now s
      | AfterTake \<Rightarrow> after_take it now s
      | AfterTask \<Rightarrow> after_task it now s)"

text \<open>
  \<open>function pump() { if (closed) return; while (running < maxConcurrent && q.length) { const item = q.shift(); runOne(item); } }\<close>
  A started item is suspended and joins \<open>waiting\<close>, or is done at once; then its
  \<open>finally\<close> clause has called \<open>pump()\<close> from inside the loop, which runs this same loop on
  this same state, so the loop simply goes on. \<open>runOne\<close> does not touch the queue; the
  queue after the \<open>shift\<close> is written again in the recursive calls.
\<close>

function pump_loop :: "int \<Rightarrow> scheduler \<Rightarrow> scheduler" where
  "pump_loop now s =
     (if running s < maxConcurrent s \<and> q s \<noteq> [] then
        (case runOne (hd (q s)) now (s\<lparr>q := tl (q s)\<rparr>) of
           (s2, Suspended w k) \<Rightarrow>
             pump_loop now (s2\<lparr>q := tl (q s), waiting := waiting s2 @ [(now + w, hd (q s), k)]\<rparr>)
         | (s2, Done) \<Rightarrow> pump_loop now (s2\<lparr>q := tl (q s)\<rparr>))
      else s)"
  by pat_completeness auto
termination
  by (relation "measure (\<lambda>(now, s). length (q s))") auto

definition pump :: "int \<Rightarrow> scheduler \<Rightarrow> scheduler" where
  "pump now s = (if sched_closed s then s else pump_loop now s)"

text \<open>
  \<open>enqueue(task, opts)\<close>: a closed scheduler rejects the promise; otherwise the item is
  pushed and \<open>pump()\<close> runs.
\<close>

definition enqueue :: "item \<Rightarrow> int \<Rightarrow> scheduler \<Rightarrow> scheduler" where
  "enqueue it now s =
     (if sched_closed s then emit now (Rejected (ident it) (Error (js ''Scheduler closed''))) s
      else pump now (s\<lparr>q := q s @ [it]\<rparr>))"

text \<open>
  The event loop: the suspended activation that is due first (the one suspended first among
  those due at the same time) goes on at its time; when it is done, \<open>pump()\<close> runs.
\<close>

fun earliest :: "(int \<times> item \<times> kont) list \<Rightarrow> (int \<times> item \<times> kont) option" where
  "earliest [] = None"
| "earliest (x # xs) =
     (case earliest xs of
        None \<Rightarrow> Some x
      | Some y \<Rightarrow> if fst y < fst x then Some y else Some x)"

definition fire :: "scheduler \<Rightarrow> (scheduler \<times> int) option" where
  "fire s =
     (case earliest (waiting s) of
        None \<Rightarrow> None
      | Some (t, it, k) \<Rightarrow>
          (case resume k it t (s\<lparr>waiting := remove1 (t, it, k) (waiting s)\<rparr>) of
             (s2, Suspended w k2) \<Rightarrow> Some (s2\<lparr>waiting := waiting s2 @ [(t + w, it, k2)]\<rparr>, t)
           | (s2, Done) \<Rightarrow> Some (pump t s2, t)))"

text \<open>
  One activation on its own: each of its timers fires exactly on time and nothing else runs
  in between. The result is the state and the time at which the item is settled.
\<close>

partial_function (option) settle_alone :: "item \<Rightarrow> int \<Rightarrow> scheduler \<times> progress \<Rightarrow> (scheduler \<times> int) option" where
  "settle_alone it now sp =
     (case sp of
        (s, Done) \<Rightarrow> Some (s, now)
      | (s, Suspended w k) \<Rightarrow> settle_alone it (now + w) (resume k it (now + w) s))"

declare settle_alone.simps [code]

definition runOne_alone :: "item \<Rightarrow> int \<Rightarrow> scheduler \<Rightarrow> (scheduler \<times> int) option" where
  "runOne_alone it now s = settle_alone it now (runOne it now s)"

text \<open>The two waits of an activation that starts at \<open>now\<close>.\<close>

definition throttle_wait :: "scheduler \<Rightarrow> int \<Rightarrow> int" where
  "throttle_wait s now =
     (if tempThrottleUntil s > now then clamp (tempThrottleUntil s - now) 50 2000 else 0)"

definition jitter_wait :: "scheduler \<Rightarrow> item \<Rightarrow> int" where
  "jitter_wait s it = sleep_ms (of_int (getJitterDelay s (jitter_draw it)))"

text \<open>Two items for the examples: one whose signal fired before time 0, one with no signal.\<close>

definition ex_aborted_item :: item where
  "ex_aborted_item = \<lparr>ident = 1, signal = Signal (Some (- 1)), task_dur = 300,
     task_result = Inr (Str (js ''a'')), jitter_draw = 1 / 2\<rparr>"

definition ex_item :: item where
  "ex_item = \<lparr>ident = 2, signal = NoSignal, task_dur = 300,
     task_result = Inr (Str (js ''b'')), jitter_draw = 1 / 2\<rparr>"

section \<open>Cache keys and skippable segments\<close>

text \<open>
  \<open>String.prototype.trim\<close> removes the white space of \<open>\s\<close> at both ends.
  \<open>String.prototype.toLowerCase\<close> is a function of the platform, with the case mappings of
  Unicode; the functions below that call it take it as their argument \<open>lc\<close>, and what is
  proved of them holds for every such function. \<open>toLowerCase\<close> here is what it does on
  strings of ASCII code units, for the examples.
\<close>

definition trim :: "jsstring \<Rightarrow> jsstring" where
  "trim s = rev (dropWhile is_space (rev (dropWhile is_space s)))"

definition lower :: "16 word \<Rightarrow> 16 word" where
  "lower c = (if 0x41 \<le> c \<and> c \<le> 0x5A then c + 0x20 else c)"

definition toLowerCase :: "jsstring \<Rightarrow> jsstring" where
  "toLowerCase s = map lower s"

definition startsWith :: "jsstring \<Rightarrow> jsstring \<Rightarrow> bool" where
  "startsWith x y = (take (length y) x = y)"

text \<open>\<open>function langEquals(a, b)\<close>\<close>

definition langEquals :: "(jsstring \<Rightarrow> jsstring) \<Rightarrow> jsstring \<Rightarrow> jsstring \<Rightarrow> bool" where
  "langEquals lc a b =
     (let x = lc a; y = lc b in
      if x = [] \<or> y = [] then False
      else x = y \<or> startsWith x y \<or> startsWith y x)"

text \<open>
  \<open>isSkippableSegment(text, minLen)\<close>: the trimmed text is shorter than
  \<open>Math.max(0, minLen | 0)\<close>, or it has no code unit of
  \<open>[A-Za-z0-9]\<close> or of the ranges U+4E00 to U+9FFF, U+3040 to U+30FF, U+AC00 to U+D7AF.
\<close>

definition is_letter :: "16 word \<Rightarrow> bool" where
  "is_letter c = ((0x41 \<le> c \<and> c \<le> 0x5A) \<or> (0x61 \<le> c \<and> c \<le> 0x7A) \<or> (0x30 \<le> c \<and> c \<le> 0x39)
                \<or> (0x4E00 \<le> c \<and> c \<le> 0x9FFF) \<or> (0x3040 \<le> c \<and> c \<le> 0x30FF)
                \<or> (0xAC00 \<le> c \<and> c \<le> 0xD7AF))"

definition isSkippableSegment :: "jsstring \<Rightarrow> int \<Rightarrow> bool" where
  "isSkippableSegment txt minLen =
     (let s = trim txt in
      if int (length s) < max 0 (to_int32 minLen) then True
      else (let letters = length (filter is_letter s) in letters \<le> 0))"

text \<open>
  \<open>fnv1a32(str)\<close>: for each code unit \<open>h ^= str.charCodeAt(i); h = Math.imul(h, 0x01000193)\<close>
  on 32 bits, printed as eight lower-case hexadecimal digits.
\<close>

definition fnv_step :: "32 word \<Rightarrow> 16 word \<Rightarrow> 32 word" where
  "fnv_step h c = (h XOR ucast c) * 0x01000193"

definition hex_digit :: "32 word \<Rightarrow> 16 word" where
  "hex_digit d = (if d < 10 then 0x30 + ucast d else 0x57 + ucast d)"

definition hex8 :: "32 word \<Rightarrow> jsstring" where
  "hex8 h = map (\<lambda>i. hex_digit (drop_bit (28 - 4 * i) h AND 0xF)) [0..<8]"

definition fnv1a32 :: "jsstring \<Rightarrow> jsstring" where
  "fnv1a32 str = hex8 (foldl fnv_step 0x811c9dc5 str)"

text \<open>\<open>makeCacheKey({ provider, model, sourceLang, targetLang, text })\<close>\<close>

definition makeCacheKey ::
  "(jsstring \<Rightarrow> jsstring) \<Rightarrow> jsstring \<Rightarrow> jsstring \<Rightarrow> jsstring \<Rightarrow> jsstring \<Rightarrow> jsstring \<Rightarrow> jsstring" where
  "makeCacheKey lc provider model src tgt txt =
     js ''v1|'' @ lc (trim provider) @ js ''|'' @ trim model @ js ''|'' @ trim src
       @ js ''|'' @ trim tgt @ js ''|'' @ fnv1a32 txt"

section \<open>Orchestrator\<close>

text \<open>
  The configuration as \<open>translateTextsV2\<close> reads it, each field after its default:
  \<open>providerType\<close> is \<open>(config?.provider?.type || 'custom').trim().toLowerCase()\<close>,
  the languages are \<open>params?.sourceLang || config?.workflow?.sourceLang || 'auto'\<close> and its
  twin, \<open>batching\<close> holds \<open>maxItems ?? 20\<close>, \<open>maxChars ?? 8000\<close>, \<open>tokenBudget ?? 2000\<close>,
  the end point and the key are trimmed.
\<close>

record config =
  providerType :: jsstring
  cfg_model :: jsstring
  cfg_endpoint :: jsstring
  cfg_apiKey :: jsstring
  sourceLang :: jsstring
  targetLang :: jsstring
  minTextLength :: int
  skipIfSourceEqualsTarget :: bool
  batching_enabled :: bool
  batching :: budgets
  cfg_maxRetries :: int
  cfg_baseDelayMs :: int
  cfg_maxDelayMs :: int
  cfg_jitter :: bool
  cfg_retryOn :: "int list"

text \<open>
  The network. A request is told by the texts it carries (the prompt, the headers and the
  random noise of the prompt are left out). A reply is a rejected \<open>fetch\<close> (a network
  failure, or an abort with the name \<open>AbortError\<close>), a response that is not \<open>ok\<close>, or a body.
  Of a body the model keeps what the code reads of it: the array \<open>outputs\<close> or \<open>data\<close> if
  there is one, the text of \<open>choices[0].message.content\<close>, and what \<open>JSON.parse\<close> makes of
  that text and of its slice from the first \<open>[\<close> to the last \<open>]\<close>, when that is an array.
  An element of such an array is a string, an object (with its \<open>text\<close> if that is a string,
  and its \<open>String()\<close>), \<open>null\<close> or \<open>undefined\<close>, or something else, kept as its \<open>String()\<close>.
\<close>

datatype request = CustomBatch "jsstring list" | OpenaiBatch "jsstring list" | OpenaiSingle jsstring

datatype elem = EStr jsstring | EObj "jsstring option" jsstring | ENullish | EOther jsstring

record body =
  outputs_or_data :: "elem list option"
  chat_text :: jsstring
  chat_parse :: "elem list option"
  chat_cut :: "elem list option"

datatype reply = FetchThrows js_error | HttpStatus int jsstring | Ok body

text \<open>
  What a call of \<open>translateTextsV2\<close> works on: the cache, the state of the network, and two
  logs, of the requests issued and of the calls of \<open>cacheInstance.set\<close>.
\<close>

record 'n world =
  cache :: LRUCache
  net_state :: 'n
  requests :: "request list"
  writes :: "(jsstring \<times> jsval) list"

definition issue :: "('n \<Rightarrow> request \<Rightarrow> reply \<times> 'n) \<Rightarrow> request \<Rightarrow> 'n world \<Rightarrow> reply \<times> 'n world" where
  "issue net r w =
     (case net (net_state w) r of
        (rep, n') \<Rightarrow> (rep, w\<lparr>net_state := n', requests := requests w @ [r]\<rparr>))"

text \<open>\<open>String(n)\<close> for a status code.\<close>

function show_nat :: "nat \<Rightarrow> jsstring" where
  "show_nat n = (if n < 10 then [0x30 + of_nat n] else show_nat (n div 10) @ [0x30 + of_nat (n mod 10)])"
  by pat_completeness auto
termination
  by (relation "measure (\<lambda>n. n)") auto

definition show_int :: "int \<Rightarrow> jsstring" where
  "show_int i = (if i < 0 then js ''-'' @ show_nat (nat (- i)) else show_nat (nat i))"

text \<open>
  \<open>getRetryOpts(cfg)\<close>, with its classifier: an abort is never retried, an error with a
  non-zero numeric status is retried iff the status is in \<open>retryOn\<close>, any other error is.
\<close>

definition getRetryOpts :: "config \<Rightarrow> 'w retry_opts" where
  "getRetryOpts cfg =
     \<lparr>maxRetries = cfg_maxRetries cfg, baseDelayMs = cfg_baseDelayMs cfg,
      maxDelayMs = cfg_maxDelayMs cfg, jitter = cfg_jitter cfg, retryOn = cfg_retryOn cfg,
      isRetriable = Some (\<lambda>e attempt.
         if e_name e = js ''AbortError'' \<or> e_name e = js ''SchedulerAbortError'' then False
         else (let status = (case e_status e of Some st \<Rightarrow> st | None \<Rightarrow> 0) in
               if status \<noteq> 0 then status \<in> set (cfg_retryOn cfg) else True)),
      onRetry = (\<lambda>info w. w)\<rparr>"

text \<open>
  \<open>scheduledFetch(scheduler, doFetch, retryOpts)\<close>: \<open>withRetry\<close> around
  \<open>scheduler.enqueue(doFetch)\<close>. The scheduler of this program is never closed and is given no
  signal, so the promise of \<open>enqueue\<close> settles as \<open>doFetch\<close> does, later; the hook, which
  throttles the scheduler, does not act on the world of the orchestrator.
\<close>

definition scheduledFetch ::
  "('n world \<Rightarrow> (js_error + 'a) \<times> 'n world) \<Rightarrow> 'n world retry_opts \<Rightarrow> (int \<Rightarrow> rat \<times> rat) \<Rightarrow> 'n world
     \<Rightarrow> (js_error + 'a) \<times> 'n world" where
  "scheduledFetch doFetch retryOpts rnd w =
     withRetry (\<lambda>attempt. doFetch) (retryOpts\<lparr>onRetry := (\<lambda>info w. w)\<rparr>) rnd w"

text \<open>
  The element \<open>o\<close> at index \<open>i\<close> of the array a custom provider returns:
  \<open>typeof o === 'string' ? o : (o && typeof o === 'object' && typeof o.text === 'string') ? o.text
     : String(o ?? texts[i] ?? '')\<close>; and of the array parsed from a chat reply:
  \<open>typeof x === 'string' ? x : String(x ?? texts[i] ?? '')\<close>.
\<close>

definition custom_item :: "jsstring list \<Rightarrow> nat \<Rightarrow> elem \<Rightarrow> jsstring" where
  "custom_item texts i x =
     (case x of
        EStr s \<Rightarrow> s
      | EObj (Some t) r \<Rightarrow> t
      | EObj None r \<Rightarrow> r
      | ENullish \<Rightarrow> (if i < length texts then texts ! i else [])
      | EOther r \<Rightarrow> r)"

definition chat_item :: "jsstring list \<Rightarrow> nat \<Rightarrow> elem \<Rightarrow> jsstring" where
  "chat_item texts i x =
     (case x of
        EStr s \<Rightarrow> s
      | EObj t r \<Rightarrow> r
      | ENullish \<Rightarrow> (if i < length texts then texts ! i else [])
      | EOther r \<Rightarrow> r)"

definition map_indexed :: "(nat \<Rightarrow> 'a \<Rightarrow> 'b) \<Rightarrow> 'a list \<Rightarrow> 'b list" where
  "map_indexed f xs = map (\<lambda>(i, x). f i x) (zip [0..<length xs] xs)"

text \<open>The function handed to \<open>scheduledFetch\<close> by \<open>customTranslateBatch\<close>.\<close>

definition customFetch ::
  "('n \<Rightarrow> request \<Rightarrow> reply \<times> 'n) \<Rightarrow> jsstring list \<Rightarrow> 'n world \<Rightarrow> (js_error + jsstring list) \<times> 'n world" where
  "customFetch net texts w =
     (case issue net (CustomBatch texts) w of
        (FetchThrows e, w1) \<Rightarrow> (Inl e, w1)
      | (HttpStatus st txt, w1) \<Rightarrow>
          (Inl (ErrorWithStatus (js ''Provider HTTP '' @ show_int st @ js '': '' @ take 200 txt) st), w1)
      | (Ok b, w1) \<Rightarrow>
          (case outputs_or_data b of
             None \<Rightarrow> (Inl (Error (js ''Invalid provider response format; expected outputs[] or data[]'')), w1)
           | Some raw \<Rightarrow> (Inr (map_indexed (custom_item texts) raw), w1)))"

text \<open>\<open>customTranslateBatch\<close>: with no end point, the demo echo; else the scheduled call.\<close>

definition customTranslateBatch ::
  "('n \<Rightarrow> request \<Rightarrow> reply \<times> 'n) \<Rightarrow> config \<Rightarrow> jsstring list \<Rightarrow> (int \<Rightarrow> rat \<times> rat) \<Rightarrow> 'n world
     \<Rightarrow> (js_error + jsstring list) \<times> 'n world" where
  "customTranslateBatch net cfg texts rnd w =
     (if cfg_endpoint cfg = [] then (Inr (map (\<lambda>t. js ''[demo] '' @ t) texts), w)
      else scheduledFetch (customFetch net texts) (getRetryOpts cfg) rnd w)"

text \<open>\<open>parseJsonArrayLike(s, expectedLen)\<close> on the two parses of the text.\<close>

definition parseJsonArrayLike :: "body \<Rightarrow> nat \<Rightarrow> elem list option" where
  "parseJsonArrayLike b expectedLen =
     (case chat_parse b of
        Some v \<Rightarrow>
          if (if expectedLen \<noteq> 0 then length v = expectedLen else True) then Some v
          else (case chat_cut b of
                  Some v2 \<Rightarrow> if (if expectedLen \<noteq> 0 then length v2 = expectedLen else True) then Some v2 else None
                | None \<Rightarrow> None)
      | None \<Rightarrow>
          (case chat_cut b of
             Some v2 \<Rightarrow> if (if expectedLen \<noteq> 0 then length v2 = expectedLen else True) then Some v2 else None
           | None \<Rightarrow> None))"

text \<open>The function handed to \<open>scheduledFetch\<close> by \<open>openaiBatchTranslateArray\<close>.\<close>

definition batchFetch ::
  "('n \<Rightarrow> request \<Rightarrow> reply \<times> 'n) \<Rightarrow> jsstring list \<Rightarrow> 'n world \<Rightarrow> (js_error + jsstring list) \<times> 'n world" where
  "batchFetch net texts w =
     (case issue net (OpenaiBatch texts) w of
        (FetchThrows e, w1) \<Rightarrow> (Inl e, w1)
      | (HttpStatus st txt, w1) \<Rightarrow>
          (Inl (ErrorWithStatus (js ''HTTP '' @ show_int st @ js '': '' @ take 200 txt) st), w1)
      | (Ok b, w1) \<Rightarrow>
          (case parseJsonArrayLike b (length texts) of
             None \<Rightarrow> (Inl (Error (js ''Invalid JSON array from provider'')), w1)
           | Some parsed \<Rightarrow> (Inr (map_indexed (chat_item texts) parsed), w1)))"

text \<open>The function handed to \<open>scheduledFetch\<close> by \<open>openaiSingle\<close>.\<close>

definition singleFetch ::
  "('n \<Rightarrow> request \<Rightarrow> reply \<times> 'n) \<Rightarrow> jsstring \<Rightarrow> 'n world \<Rightarrow> (js_error + jsstring) \<times> 'n world" where
  "singleFetch net txt w =
     (case issue net (OpenaiSingle txt) w of
        (FetchThrows e, w1) \<Rightarrow> (Inl e, w1)
      | (HttpStatus st body_text, w1) \<Rightarrow>
          (Inl (ErrorWithStatus (js ''HTTP '' @ show_int st @ js '': '' @ take 200 body_text) st), w1)
      | (Ok b, w1) \<Rightarrow> (Inr (chat_text b), w1))"

definition openaiSingle ::
  "('n \<Rightarrow> request \<Rightarrow> reply \<times> 'n) \<Rightarrow> config \<Rightarrow> jsstring \<Rightarrow> (int \<Rightarrow> rat \<times> rat) \<Rightarrow> 'n world
     \<Rightarrow> (js_error + jsstring) \<times> 'n world" where
  "openaiSingle net cfg txt rnd w =
     (if cfg_apiKey cfg = [] then (Inl (Error (js ''openai-compatible provider requires apiKey'')), w)
      else scheduledFetch (singleFetch net txt) (getRetryOpts cfg) rnd w)"

text \<open>
  The loop of the \<open>catch\<close> clause of \<open>openaiBatchTranslateArray\<close>:
  \<open>for (const t of texts) { const v = await openaiSingle(t, ...); out.push(v); }\<close>
\<close>

fun fallback_loop ::
  "('n \<Rightarrow> request \<Rightarrow> reply \<times> 'n) \<Rightarrow> config \<Rightarrow> (int \<Rightarrow> rat \<times> rat) \<Rightarrow> jsstring list \<Rightarrow> jsstring list
     \<Rightarrow> 'n world \<Rightarrow> (js_error + jsstring list) \<times> 'n world" where
  "fallback_loop net cfg rnd [] acc w = (Inr acc, w)"
| "fallback_loop net cfg rnd (t # ts) acc w =
     (case openaiSingle net cfg t rnd w of
        (Inl e, w1) \<Rightarrow> (Inl e, w1)
      | (Inr v, w1) \<Rightarrow> fallback_loop net cfg rnd ts (acc @ [v]) w1)"

text \<open>
  \<open>openaiBatchTranslateArray\<close>: the key is checked before the \<open>try\<close>; in \<open>catch (e)\<close> an
  error named \<open>AbortError\<close> or \<open>SchedulerAbortError\<close> is thrown again, any other starts the
  loop above.
\<close>

definition openaiBatchTranslateArray ::
  "('n \<Rightarrow> request \<Rightarrow> reply \<times> 'n) \<Rightarrow> config \<Rightarrow> jsstring list \<Rightarrow> (int \<Rightarrow> rat \<times> rat) \<Rightarrow> 'n world
     \<Rightarrow> (js_error + jsstring list) \<times> 'n world" where
  "openaiBatchTranslateArray net cfg texts rnd w =
     (if cfg_apiKey cfg = [] then (Inl (Error (js ''openai-compatible provider requires apiKey'')), w)
      else
        (case scheduledFetch (batchFetch net texts) (getRetryOpts cfg) rnd w of
           (Inr arr, w1) \<Rightarrow> (Inr arr, w1)
         | (Inl e, w1) \<Rightarrow>
             if e_name e = js ''AbortError'' \<or> e_name e = js ''SchedulerAbortError'' then (Inl e, w1)
             else fallback_loop net cfg rnd texts [] w1))"

text \<open>An entry of \<open>pending\<close>: \<open>{ idx, text, key }\<close>.\<close>

record pending =
  p_idx :: nat
  p_text :: jsstring
  p_key :: jsstring

text \<open>The test that passes a text through unchanged.\<close>

definition skipped :: "(jsstring \<Rightarrow> jsstring) \<Rightarrow> config \<Rightarrow> jsstring \<Rightarrow> bool" where
  "skipped lc cfg t =
     ((skipIfSourceEqualsTarget cfg \<and> sourceLang cfg \<noteq> js ''auto''
         \<and> langEquals lc (sourceLang cfg) (targetLang cfg))
      \<or> isSkippableSegment t (minTextLength cfg))"

definition key_of :: "(jsstring \<Rightarrow> jsstring) \<Rightarrow> config \<Rightarrow> jsstring \<Rightarrow> jsstring" where
  "key_of lc cfg t = makeCacheKey lc (providerType cfg) (cfg_model cfg) (sourceLang cfg) (targetLang cfg) t"

text \<open>
  The first loop of \<open>translateTextsV2\<close>, from index \<open>i\<close> on: a skipped text is passed
  through, a cache hit is served, a miss is pushed on \<open>pending\<close>. The clock of the cache is
  read as \<open>now\<close> throughout one call.
\<close>

fun scan :: "(jsstring \<Rightarrow> jsstring) \<Rightarrow> config \<Rightarrow> int \<Rightarrow> jsstring list \<Rightarrow> nat \<Rightarrow> jsval list \<times> pending list \<times> LRUCache
               \<Rightarrow> jsval list \<times> pending list \<times> LRUCache" where
  "scan lc cfg now [] i st = st"
| "scan lc cfg now (t # ts) i (outs, pend, c) =
     (if skipped lc cfg t then scan lc cfg now ts (i + 1) (outs[i := Str t], pend, c)
      else
        (case cache_get c now (key_of lc cfg t) of
           (cached, c1) \<Rightarrow>
             if cached \<noteq> Undefined then scan lc cfg now ts (i + 1) (outs[i := cached], pend, c1)
             else scan lc cfg now ts (i + 1)
                    (outs, pend @ [\<lparr>p_idx = i, p_text = t, p_key = key_of lc cfg t\<rparr>], c1)))"

text \<open>\<open>try { cacheInstance?.set(key, v); } catch {}\<close>, logged.\<close>

definition store :: "int \<Rightarrow> jsstring \<Rightarrow> jsval \<Rightarrow> 'n world \<Rightarrow> 'n world" where
  "store now key v w =
     w\<lparr>cache := cache_set (cache w) now key v None, writes := writes w @ [(key, v)]\<rparr>"

text \<open>
  The loop that maps the results back, from \<open>k\<close> on:
  \<open>const v = arr[k] ?? ''; outs[pending[k].idx] = v; cacheInstance?.set(pending[k].key, v);\<close>
\<close>

fun map_back :: "int \<Rightarrow> jsstring list \<Rightarrow> nat \<Rightarrow> pending list \<Rightarrow> jsval list \<times> 'n world
                   \<Rightarrow> jsval list \<times> 'n world" where
  "map_back now arr k [] st = st"
| "map_back now arr k (p # ps) (outs, w) =
     (let v = (if k < length arr then arr ! k else []) in
      map_back now arr (k + 1) ps (outs[p_idx p := Str v], store now (p_key p) (Str v) w))"

text \<open>The loop over the chunks: \<open>flatResults.push(...part)\<close>.\<close>

fun batch_loop ::
  "('n \<Rightarrow> request \<Rightarrow> reply \<times> 'n) \<Rightarrow> config \<Rightarrow> (int \<Rightarrow> rat \<times> rat) \<Rightarrow> jsstring list list \<Rightarrow> jsstring list
     \<Rightarrow> 'n world \<Rightarrow> (js_error + jsstring list) \<times> 'n world" where
  "batch_loop net cfg rnd [] flat w = (Inr flat, w)"
| "batch_loop net cfg rnd (chunk # chunks) flat w =
     (case openaiBatchTranslateArray net cfg chunk rnd w of
        (Inl e, w1) \<Rightarrow> (Inl e, w1)
      | (Inr part, w1) \<Rightarrow> batch_loop net cfg rnd chunks (flat @ part) w1)"

text \<open>
  The loop of the path without batching:
  \<open>for (const p of pending) { const v = await openaiSingle(p.text, ...); outs[p.idx] = v; cacheInstance?.set(p.key, v); }\<close>
\<close>

fun item_loop ::
  "('n \<Rightarrow> request \<Rightarrow> reply \<times> 'n) \<Rightarrow> config \<Rightarrow> int \<Rightarrow> (int \<Rightarrow> rat \<times> rat) \<Rightarrow> pending list
     \<Rightarrow> jsval list \<times> 'n world \<Rightarrow> (js_error + jsval list) \<times> 'n world" where
  "item_loop net cfg now rnd [] (outs, w) = (Inr outs, w)"
| "item_loop net cfg now rnd (p # ps) (outs, w) =
     (case openaiSingle net cfg (p_text p) rnd w of
        (Inl e, w1) \<Rightarrow> (Inl e, w1)
      | (Inr v, w1) \<Rightarrow>
          item_loop net cfg now rnd ps (outs[p_idx p := Str v], store now (p_key p) (Str v) w1))"

text \<open>
  \<open>translateTextsV2(texts, config, params, jobId)\<close>. \<open>outs\<close> starts as an array of
  \<open>texts.length\<close> empty slots.
\<close>

definition translateTextsV2 ::
  "(jsstring \<Rightarrow> jsstring) \<Rightarrow> ('n \<Rightarrow> request \<Rightarrow> reply \<times> 'n) \<Rightarrow> config \<Rightarrow> int \<Rightarrow> (int \<Rightarrow> rat \<times> rat) \<Rightarrow> jsstring list
     \<Rightarrow> 'n world \<Rightarrow> (js_error + jsval list) \<times> 'n world" where
  "translateTextsV2 lc net cfg now rnd texts w =
     (case scan lc cfg now texts 0 (replicate (length texts) Undefined, [], cache w) of
        (outs, pend, c1) \<Rightarrow>
          (let w1 = w\<lparr>cache := c1\<rparr> in
           if length pend = 0 then (Inr outs, w1)
           else if providerType cfg = js ''openai-compatible'' then
             (if batching_enabled cfg then
                (let seq = map p_text pend;
                     chunks = splitInputsByBudget seq (batching cfg)
                 in case batch_loop net cfg rnd chunks [] w1 of
                      (Inl e, w2) \<Rightarrow> (Inl e, w2)
                    | (Inr flatResults, w2) \<Rightarrow>
                        (case map_back now flatResults 0 pend (outs, w2) of
                           (outs2, w3) \<Rightarrow> (Inr outs2, w3)))
              else item_loop net cfg now rnd pend (outs, w1))
           else
             (let seq = map p_text pend in
              case customTranslateBatch net cfg seq rnd w1 of
                (Inl e, w2) \<Rightarrow> (Inl e, w2)
              | (Inr arr, w2) \<Rightarrow>
                  (case map_back now arr 0 pend (outs, w2) of
                     (outs2, w3) \<Rightarrow> (Inr outs2, w3)))))"

text \<open>
  The calls of the network collaborator that \<open>translateTextsV2\<close> makes for the texts \<open>seq\<close> of
  its pending entries, taken by themselves, without the cache writes made between them or
  after them: \<open>customTranslateBatch(seq)\<close>; or \<open>openaiBatchTranslateArray(chunk)\<close> for each chunk
  of \<open>splitInputsByBudget(seq)\<close> in turn, the results appended; or, without batching,
  \<open>openaiSingle(text)\<close> for each text of \<open>seq\<close> in turn, which is the loop \<open>fallback_loop\<close>.
\<close>

definition provider_calls ::
  "('n \<Rightarrow> request \<Rightarrow> reply \<times> 'n) \<Rightarrow> config \<Rightarrow> (int \<Rightarrow> rat \<times> rat) \<Rightarrow> jsstring list \<Rightarrow> 'n world
     \<Rightarrow> (js_error + jsstring list) \<times> 'n world" where
  "provider_calls net cfg rnd seq w =
     (if providerType cfg = js ''openai-compatible'' then
        (if batching_enabled cfg
         then batch_loop net cfg rnd (splitInputsByBudget seq (batching cfg)) [] w
         else fallback_loop net cfg rnd seq [] w)
      else customTranslateBatch net cfg seq rnd w)"

text \<open>
  The requests such calls may issue when they succeed. A scheduled call issues its request
  once or more (again after each failure that is retried): \<open>retried\<close>. The single-item calls
  for a list of texts issue, for each text in turn, its request once or more:
  \<open>single_trace\<close>. The batch call for a chunk issues the request of the chunk once or more,
  and then either nothing or, when it fell back, the requests of the single-item calls for
  the chunk: \<open>batch_trace\<close>; the batch calls for a list of chunks do so for each chunk in
  turn: \<open>batches_trace\<close>. \<open>provider_trace cfg seq rs\<close> says that \<open>rs\<close> is such a list of requests
  for the configuration \<open>cfg\<close> and the texts \<open>seq\<close>; a custom provider with no end point is not
  called at all.
\<close>

definition retried :: "request \<Rightarrow> request list \<Rightarrow> bool" where
  "retried rq rs = (rs \<noteq> [] \<and> rs = replicate (length rs) rq)"

fun single_trace :: "jsstring list \<Rightarrow> request list \<Rightarrow> bool" where
  "single_trace [] rs = (rs = [])"
| "single_trace (t # ts) rs =
     list_ex (\<lambda>k. retried (OpenaiSingle t) (take k rs) \<and> single_trace ts (drop k rs))
       [0..<Suc (length rs)]"

definition batch_trace :: "jsstring list \<Rightarrow> request list \<Rightarrow> bool" where
  "batch_trace chunk rs =
     list_ex (\<lambda>k. retried (OpenaiBatch chunk) (take k rs)
                \<and> (drop k rs = [] \<or> single_trace chunk (drop k rs)))
       [0..<Suc (length rs)]"

fun batches_trace :: "jsstring list list \<Rightarrow> request list \<Rightarrow> bool" where
  "batches_trace [] rs = (rs = [])"
| "batches_trace (chunk # chunks) rs =
     list_ex (\<lambda>k. batch_trace chunk (take k rs) \<and> batches_trace chunks (drop k rs))
       [0..<Suc (length rs)]"

definition provider_trace :: "config \<Rightarrow> jsstring list \<Rightarrow> request list \<Rightarrow> bool" where
  "provider_trace cfg seq rs =
     (if providerType cfg = js ''openai-compatible'' then
        (if batching_enabled cfg then batches_trace (splitInputsByBudget seq (batching cfg)) rs
         else single_trace seq rs)
      else if cfg_endpoint cfg = [] then rs = []
      else retried (CustomBatch seq) rs)"

text \<open>The texts a request carries.\<close>

fun sent :: "request \<Rightarrow> jsstring list" where
  "sent (CustomBatch ts) = ts"
| "sent (OpenaiBatch ts) = ts"
| "sent (OpenaiSingle t) = [t]"

text \<open>A cancellation-class error, as the \<open>catch\<close> clause of the batch call tells it.\<close>

definition cancellation :: "js_error \<Rightarrow> bool" where
  "cancellation e = (e_name e = js ''AbortError'' \<or> e_name e = js ''SchedulerAbortError'')"

text \<open>
  Examples: a configuration with two retries, for the custom and for the openai-compatible
  provider; a network that answers every request by putting each text in angle brackets;
  one that refuses every batch with status 503; one whose batch replies do not parse;
  one where every \<open>fetch\<close> is aborted; an empty world; a constant source of random numbers.
\<close>

definition ex_cfg :: config where
  "ex_cfg = \<lparr>providerType = js ''custom'', cfg_model = js '''', cfg_endpoint = js ''https://x/t'',
     cfg_apiKey = js ''k'', sourceLang = js ''auto'', targetLang = js ''zh-CN'', minTextLength = 2,
     skipIfSourceEqualsTarget = True, batching_enabled = True,
     batching = \<lparr>maxItems = 20, maxChars = 8000, tokenBudget = 2000\<rparr>,
     cfg_maxRetries = 2, cfg_baseDelayMs = 800, cfg_maxDelayMs = 20000, cfg_jitter = True,
     cfg_retryOn = [429, 500, 502, 503, 504]\<rparr>"

definition ex_openai_cfg :: config where
  "ex_openai_cfg = ex_cfg\<lparr>providerType := js ''openai-compatible''\<rparr>"

definition echo_body :: "jsstring list \<Rightarrow> body" where
  "echo_body ts = \<lparr>outputs_or_data = Some (map (\<lambda>t. EStr (js ''<'' @ t @ js ''>'')) ts),
     chat_text = js ''<'' @ concat ts @ js ''>'',
     chat_parse = Some (map (\<lambda>t. EStr (js ''<'' @ t @ js ''>'')) ts), chat_cut = None\<rparr>"

definition echo_net :: "unit \<Rightarrow> request \<Rightarrow> reply \<times> unit" where
  "echo_net n r = (Ok (echo_body (sent r)), n)"

definition busy_batch_net :: "unit \<Rightarrow> request \<Rightarrow> reply \<times> unit" where
  "busy_batch_net n r =
     (case r of OpenaiBatch ts \<Rightarrow> (HttpStatus 503 (js ''busy''), n)
      | _ \<Rightarrow> (Ok (echo_body (sent r)), n))"

definition bad_json_net :: "unit \<Rightarrow> request \<Rightarrow> reply \<times> unit" where
  "bad_json_net n r =
     (case r of OpenaiBatch ts \<Rightarrow> (Ok ((echo_body ts)\<lparr>chat_parse := None\<rparr>), n)
      | _ \<Rightarrow> (Ok (echo_body (sent r)), n))"

definition abort_net :: "unit \<Rightarrow> request \<Rightarrow> reply \<times> unit" where
  "abort_net n r = (FetchThrows (AbortError\<lparr>e_message := js ''The user aborted a request.''\<rparr>), n)"

definition ex_world :: "unit world" where
  "ex_world = \<lparr>cache = new_LRUCache 500 43200000 True, net_state = (), requests = [], writes = []\<rparr>"

definition ex_rnd :: "int \<Rightarrow> rat \<times> rat" where
  "ex_rnd k = (1 / 2, 1 / 2)"

text \<open>
  A text misses when it is not passed through and the cache returns \<open>undefined\<close> for its
  key. \<open>pending_entries\<close> lists, in order, one entry for every position of the input whose
  text misses the cache as it is when the call starts. \<open>assign\<close> writes a list of values
  to the positions of a list of entries.
\<close>

definition miss :: "(jsstring \<Rightarrow> jsstring) \<Rightarrow> config \<Rightarrow> int \<Rightarrow> LRUCache \<Rightarrow> jsstring \<Rightarrow> bool" where
  "miss lc cfg now c t = (\<not> skipped lc cfg t \<and> fst (cache_get c now (key_of lc cfg t)) = Undefined)"

definition pending_entries :: "(jsstring \<Rightarrow> jsstring) \<Rightarrow> config \<Rightarrow> int \<Rightarrow> LRUCache \<Rightarrow> jsstring list \<Rightarrow> pending list" where
  "pending_entries lc cfg now c texts =
     map (\<lambda>i. \<lparr>p_idx = i, p_text = texts ! i, p_key = key_of lc cfg (texts ! i)\<rparr>)
         (filter (\<lambda>i. miss lc cfg now c (texts ! i)) [0..<length texts])"

fun assign :: "pending list \<Rightarrow> jsval list \<Rightarrow> jsval list \<Rightarrow> jsval list" where
  "assign (p # ps) (v # vs) outs = assign ps vs (outs[p_idx p := v])"
| "assign ps vs outs = outs"

text \<open>An input with the same text twice and a text that is passed through.\<close>

definition ex_texts :: "jsstring list" where
  "ex_texts = [js ''hello'', js ''hello'', js ''!'']"

section \<open>Facts about the helpers\<close>

lemma to_int32_id: "- (2 ^ 31) \<le> x \<Longrightarrow> x < 2 ^ 31 \<Longrightarrow> to_int32 x = x"
  unfolding to_int32_def by (simp add: sint_sbintrunc' signed_take_bit_int_eq_self)

lemma randBetween_range:
  assumes u: "0 \<le> u" "u < 1"
    and ab: "a \<le> b" "- (2 ^ 31) \<le> a" "b < 2 ^ 31"
  shows "a \<le> randBetween a b u \<and> randBetween a b u \<le> b"
proof -
  have lo: "to_int32 (min a b) = a" using ab by (simp add: to_int32_id min_def)
  have hi: "to_int32 (max a b) = b" using ab by (simp add: to_int32_id max_def)
  define n :: rat where "n = of_int (b - a + 1)"
  have npos: "0 < n" unfolding n_def using ab by linarith
  have "0 \<le> u * n" using u npos by simp
  then have f0: "0 \<le> \<lfloor>u * n\<rfloor>" by simp
  have "u * n < n" using u npos by simp
  then have "\<lfloor>u * n\<rfloor> < b - a + 1" unfolding n_def by (simp only: floor_less_iff)
  with f0 show ?thesis unfolding randBetween_def lo hi Let_def n_def by linarith
qed

lemma backoff_expo:
  assumes "1 \<le> k" "0 \<le> b" "b = 0 \<longrightarrow> k \<le> 1024" "m < 2 ^ 1024"
  shows "js_min (js_times b (js_pow2 (max 0 (k - 1)))) m = Num (min (b * 2 ^ nat (k - 1)) m)"
proof (cases "1024 \<le> k - 1")
  case True
  then have b: "1 \<le> b" using assms(2,3) by auto
  have "nat (k - 1) \<ge> 1024" using True by simp
  then have "(2::int) ^ 1024 \<le> 2 ^ nat (k - 1)" by (intro power_increasing) simp_all
  also have "\<dots> \<le> b * 2 ^ nat (k - 1)" using b by (simp add: mult_le_cancel_right1)
  finally have "m \<le> b * 2 ^ nat (k - 1)" using assms(4) by simp
  then show ?thesis using True b assms(1) by (simp add: js_pow2_def js_times_def js_min_def min_def)
next
  case False
  have p0: "0 \<le> b * 2 ^ nat (k - 1)" using assms(2) by simp
  show ?thesis
  proof (cases "2 ^ 1024 \<le> b * 2 ^ nat (k - 1)")
    case True
    then have "m \<le> b * 2 ^ nat (k - 1)" using assms(4) by simp
    moreover have "0 < b * 2 ^ nat (k - 1)" using True by (simp add: less_le_trans [OF _ True])
    ultimately show ?thesis using False True assms(1) p0
      by (simp add: js_pow2_def js_times_def js_min_def min_def)
  next
    case small: False
    then show ?thesis using False assms(1) p0
      by (simp add: js_pow2_def js_times_def js_min_def)
  qed
qed

lemma backoff_plain:
  assumes "1 \<le> k" "0 \<le> b" "b = 0 \<longrightarrow> k \<le> 1024" "m < 2 ^ 1024"
  shows "computeBackoffDelay k b m False u1 u2 = Num (min (b * 2 ^ nat (k - 1)) m)"
  using backoff_expo [OF assms] by (simp add: computeBackoffDelay_def Let_def)

lemma backoff_mono:
  assumes "1 \<le> k" "k \<le> k'" "0 \<le> b"
  shows "min (b * 2 ^ nat (k - 1)) m \<le> min (b * 2 ^ nat (k' - 1)) (m::int)"
proof -
  have "nat (k - 1) \<le> nat (k' - 1)" using assms by simp
  then have "(2::int) ^ nat (k - 1) \<le> 2 ^ nat (k' - 1)"
    by (intro power_increasing) simp_all
  then have "b * 2 ^ nat (k - 1) \<le> b * 2 ^ nat (k' - 1)"
    using assms(3) by (rule mult_left_mono)
  then show ?thesis by (simp add: min_le_iff_disj)
qed

lemma backoff_jitter:
  assumes "1 \<le> k" "0 \<le> b" "b = 0 \<longrightarrow> k \<le> 1024" "m < 2 ^ 1024"
  shows "computeBackoffDelay k b m True u1 u2
       = (let d = min (b * 2 ^ nat (k - 1)) m; delta = (d * randBetween 10 30 u1) div 100
          in Num (randBetween (d - delta) (d + delta) u2))"
  using backoff_expo [OF assms] by (simp add: computeBackoffDelay_def Let_def)

lemma backoff_jitter_range:
  assumes u: "0 \<le> u1" "u1 < 1" "0 \<le> u2" "u2 < 1"
    and d: "0 \<le> d" "13 * d < 10 * 2 ^ 31"
  shows "100 * \<bar>randBetween (d - (d * randBetween 10 30 u1) div 100)
                   (d + (d * randBetween 10 30 u1) div 100) u2 - d\<bar> \<le> 30 * d"
proof -
  define p where "p = randBetween 10 30 u1"
  define delta where "delta = (d * p) div 100"
  have p: "10 \<le> p \<and> p \<le> 30" unfolding p_def using u by (intro randBetween_range) simp_all
  have dp: "d * p \<le> d * 30" using p d(1) by (intro mult_left_mono) simp_all
  have "0 \<le> d * p" using p d(1) by simp
  then have d0: "0 \<le> delta" unfolding delta_def by (simp add: pos_imp_zdiv_nonneg_iff)
  have "100 * delta \<le> d * p" unfolding delta_def by (simp add: mult.commute [of 100])
  then have d30: "100 * delta \<le> 30 * d" using dp by simp
  have small: "d + delta < 2 ^ 31" using d30 d(2) by simp
  have big: "- (2 ^ 31) \<le> d - delta" using d30 d(1) d(2) by simp
  have r: "d - delta \<le> randBetween (d - delta) (d + delta) u2
         \<and> randBetween (d - delta) (d + delta) u2 \<le> d + delta"
    using u d0 small big by (intro randBetween_range) simp_all
  from r have "\<bar>randBetween (d - delta) (d + delta) u2 - d\<bar> \<le> delta"
    by (simp add: abs_le_iff algebra_simps)
  then have "100 * \<bar>randBetween (d - delta) (d + delta) u2 - d\<bar> \<le> 100 * delta" by simp
  also note d30
  finally show ?thesis unfolding delta_def p_def .
qed

lemma backoff_jitter_varies:
  assumes d: "4 \<le> d" "13 * d < 10 * 2 ^ 31"
  shows "randBetween (d - (d * randBetween 10 30 (20 / 21)) div 100)
           (d + (d * randBetween 10 30 (20 / 21)) div 100) 0
       \<noteq> randBetween (d - (d * randBetween 10 30 (20 / 21)) div 100)
           (d + (d * randBetween 10 30 (20 / 21)) div 100) (1 / 2)"
proof -
  have p: "randBetween 10 30 (20 / 21) = 30"
    by (simp add: randBetween_def to_int32_def)
  define delta where "delta = (d * 30) div 100"
  have d1: "1 \<le> delta" unfolding delta_def using d(1) by simp
  have "100 * delta \<le> d * 30" unfolding delta_def by (simp add: mult.commute [of 100])
  then have bounds: "d + delta < 2 ^ 31" "- (2 ^ 31) \<le> d - delta" "d - delta \<le> d + delta"
    using d d1 by simp_all
  have lo: "to_int32 (d - delta) = d - delta" using bounds d1 by (simp add: to_int32_id)
  have hi: "to_int32 (d + delta) = d + delta" using bounds by (simp add: to_int32_id)
  have r0: "randBetween (d - delta) (d + delta) 0 = d - delta"
    using bounds by (simp add: randBetween_def Let_def min_def max_def lo hi)
  have "(1 / 2 :: rat) * of_int (d + delta - (d - delta) + 1) = of_int delta + 1 / 2"
    by (simp add: algebra_simps)
  then have "\<lfloor>(1 / 2 :: rat) * of_int (d + delta - (d - delta) + 1)\<rfloor> = delta"
    by (simp add: floor_unique)
  then have r1: "randBetween (d - delta) (d + delta) (1 / 2) = d"
    using bounds by (simp add: randBetween_def Let_def min_def max_def lo hi)
  show ?thesis unfolding p delta_def [symmetric] r0 r1 using d1 by simp
qed

lemma backoff_jitter_fixed:
  assumes u: "0 \<le> u1" "u1 < 1" "0 \<le> u2" "u2 < 1"
    and d: "0 \<le> d" "d \<le> 3"
  shows "randBetween (d - (d * randBetween 10 30 u1) div 100)
           (d + (d * randBetween 10 30 u1) div 100) u2 = d"
proof -
  define p where "p = randBetween 10 30 u1"
  have p: "10 \<le> p \<and> p \<le> 30" unfolding p_def using u by (intro randBetween_range) simp_all
  have "d * p \<le> 3 * 30" using p d by (intro mult_mono) simp_all
  moreover have "0 \<le> d * p" using p d by simp
  ultimately have z: "(d * p) div 100 = 0" by (simp add: div_pos_pos_trivial)
  have "d \<le> randBetween d d u2 \<and> randBetween d d u2 \<le> d"
    using u d by (intro randBetween_range) simp_all
  then show ?thesis unfolding p_def [symmetric] z by simp
qed

subsection \<open>The status read from a message\<close>

lemma strip_prefix_append: "strip_prefix p (p @ s) = Some s"
  by (induction p) simp_all

lemma digit_not_space: "is_digit c \<Longrightarrow> \<not> is_space c"
  by (auto simp: is_digit_def is_space_def word_le_nat_alt)

lemma dropWhile_spaces:
  "\<forall>c\<in>set ws. is_space c \<Longrightarrow> \<not> is_space d \<Longrightarrow> dropWhile is_space (ws @ d # r) = d # r"
  by (induction ws) simp_all

lemma http_here_match:
  assumes "ws \<noteq> []" "\<forall>c\<in>set ws. is_space c"
    and "is_digit d1" "is_digit d2" "is_digit d3"
    and "post = [] \<or> \<not> is_word (hd post)"
  shows "http_here (js ''HTTP'' @ ws @ [d1, d2, d3] @ post)
       = Some (100 * (uint d1 - 48) + 10 * (uint d2 - 48) + (uint d3 - 48))"
proof -
  have dw: "dropWhile is_space (ws @ d1 # d2 # d3 # post) = d1 # d2 # d3 # post"
    using assms(2,3) by (intro dropWhile_spaces digit_not_space)
  have len: "length (d1 # d2 # d3 # post) \<noteq> length (ws @ d1 # d2 # d3 # post)"
    using assms(1) by simp
  have bd: "(case post of [] \<Rightarrow> True | c # _ \<Rightarrow> \<not> is_word c)"
    using assms(6) by (cases post) simp_all
  show ?thesis
    unfolding http_here_def strip_prefix_append
    using dw len bd assms(3,4,5) by (simp add: Let_def)
qed

lemma strip_prefix_Some: "strip_prefix p s = Some r \<Longrightarrow> s = p @ r"
  by (induction p s rule: strip_prefix.induct) (auto split: if_splits)

lemma http_here_Some:
  assumes "http_here t = Some n"
  shows "\<exists>ws d1 d2 d3 post. t = js ''HTTP'' @ ws @ [d1, d2, d3] @ post \<and> ws \<noteq> []
       \<and> (\<forall>c\<in>set ws. is_space c) \<and> is_digit d1 \<and> is_digit d2 \<and> is_digit d3
       \<and> (post = [] \<or> \<not> is_word (hd post))
       \<and> n = 100 * (uint d1 - 48) + 10 * (uint d2 - 48) + (uint d3 - 48)"
proof -
  from assms obtain r where sp: "strip_prefix (js ''HTTP'') t = Some r"
    by (auto simp: http_here_def split: option.splits)
  then have t: "t = js ''HTTP'' @ r" by (rule strip_prefix_Some)
  define ws where "ws = takeWhile is_space r"
  define r' where "r' = dropWhile is_space r"
  have r: "r = ws @ r'" by (simp add: ws_def r'_def)
  from assms sp have len: "length r' \<noteq> length r"
    by (auto simp: http_here_def Let_def r'_def split: if_splits)
  then have ws: "ws \<noteq> []" using r by auto
  have sp_ws: "\<forall>c\<in>set ws. is_space c" unfolding ws_def by (auto dest: set_takeWhileD)
  from assms sp len obtain d1 d2 d3 post where r': "r' = d1 # d2 # d3 # post"
    and dg: "is_digit d1" "is_digit d2" "is_digit d3"
    and bd: "(case post of [] \<Rightarrow> True | c # _ \<Rightarrow> \<not> is_word c)"
    and n: "n = 100 * (uint d1 - 48) + 10 * (uint d2 - 48) + (uint d3 - 48)"
    by (auto simp: http_here_def Let_def r'_def split: if_splits list.splits)
  have "post = [] \<or> \<not> is_word (hd post)" using bd by (cases post) simp_all
  with t r r' ws sp_ws dg n show ?thesis by (intro exI [of _ ws] exI [of _ d1] exI [of _ d2]
        exI [of _ d3] exI [of _ post]) simp
qed

lemma http_at_here:
  assumes "http_at s i j"
  shows "http_here (drop i s) = Some (code_at s j)"
proof -
  define ws where "ws = take (j - (i + 4)) (drop (i + 4) s)"
  from assms have h: "take 4 (drop i s) = js ''HTTP''" and ij: "i + 4 < j" and jl: "j + 3 \<le> length s"
    and sp: "list_all is_space ws" and dg: "list_all is_digit (take 3 (drop j s))"
    and bd: "j + 3 = length s \<or> \<not> is_word (s ! (j + 3))"
    by (simp_all add: http_at_def ws_def)
  have a: "drop i s = js ''HTTP'' @ drop (i + 4) s"
    using append_take_drop_id [of 4 "drop i s"] h by (simp add: add.commute)
  have "drop (j - (i + 4)) (drop (i + 4) s) = drop j s" using ij by simp
  then have b: "drop (i + 4) s = ws @ drop j s"
    using append_take_drop_id [of "j - (i + 4)" "drop (i + 4) s"] by (simp add: ws_def)
  have c: "drop j s = [s ! j, s ! (j + 1), s ! (j + 2)] @ drop (j + 3) s"
    using jl by (simp add: Cons_nth_drop_Suc numeral_3_eq_3)
  have t3: "take 3 (drop j s) = [s ! j, s ! (j + 1), s ! (j + 2)]"
    by (subst c) simp
  have ws0: "ws \<noteq> []" using ij jl by (simp add: ws_def)
  have post: "drop (j + 3) s = [] \<or> \<not> is_word (hd (drop (j + 3) s))"
    using bd jl by (auto simp: hd_drop_conv_nth)
  have "http_here (js ''HTTP'' @ ws @ [s ! j, s ! (j + 1), s ! (j + 2)] @ drop (j + 3) s)
      = Some (100 * (uint (s ! j) - 48) + 10 * (uint (s ! (j + 1)) - 48) + (uint (s ! (j + 2)) - 48))"
    using ws0 sp dg post unfolding t3 by (intro http_here_match) (simp_all add: list_all_iff)
  then show ?thesis using a b c by (simp add: code_at_def)
qed

lemma here_http_at:
  assumes "http_here (drop i s) = Some n" and "i = 0 \<or> \<not> is_word (s ! (i - 1))"
  shows "\<exists>j\<le>length s. http_at s i j"
proof -
  from http_here_Some [OF assms(1)] obtain ws d1 d2 d3 post where
    d: "drop i s = js ''HTTP'' @ ws @ [d1, d2, d3] @ post" and ws: "ws \<noteq> []"
    and sp: "\<forall>c\<in>set ws. is_space c" and dg: "is_digit d1" "is_digit d2" "is_digit d3"
    and bd: "post = [] \<or> \<not> is_word (hd post)" by blast
  define j where "j = i + 4 + length ws"
  have il: "i < length s" using d by (cases "i < length s") (simp_all add: js_def)
  have len: "length s = i + (4 + length ws + 3 + length post)"
    using arg_cong [OF d, of length] il by (simp add: js_def)
  have d4: "drop (i + 4) s = ws @ [d1, d2, d3] @ post"
    using arg_cong [OF d, of "drop 4"] by (simp add: js_def add.commute)
  have dj: "drop j s = [d1, d2, d3] @ post"
    using arg_cong [OF d4, of "drop (length ws)"] by (simp add: j_def add.commute)
  have dj3: "drop (j + 3) s = post"
    using arg_cong [OF dj, of "drop 3"] by (simp add: add.commute)
  have 1: "take 4 (drop i s) = js ''HTTP''" unfolding d by (simp add: js_def)
  have 2: "list_all is_space (take (j - (i + 4)) (drop (i + 4) s))"
    unfolding d4 using sp by (simp add: j_def list_all_iff)
  have 3: "list_all is_digit (take 3 (drop j s))" unfolding dj using dg by simp
  have 4: "j + 3 = length s \<or> \<not> is_word (s ! (j + 3))"
  proof (cases post)
    case Nil
    then show ?thesis using len by (simp add: j_def)
  next
    case (Cons c cs)
    then have "j + 3 < length s" using len by (simp add: j_def)
    then have "s ! (j + 3) = hd (drop (j + 3) s)" by (simp add: hd_drop_conv_nth)
    then show ?thesis using bd Cons dj3 by simp
  qed
  have "http_at s i j"
    unfolding http_at_def using assms(2) 1 2 3 4 ws len by (simp add: j_def)
  moreover have "j \<le> length s" using len by (simp add: j_def)
  ultimately show ?thesis by blast
qed

lemma no_http_before_iff:
  "no_http_before s k = (\<forall>i<k. \<forall>j\<le>length s. \<not> http_at s i j)"
  by (simp only: no_http_before_def list_all_iff set_upt atLeastLessThan_iff Ball_def less_Suc_eq_le)
    auto

lemma http_search_from:
  assumes "i \<le> k" "k < length s" "k = 0 \<or> \<not> is_word (s ! (k - 1))" "http_here (drop k s) = Some n"
    and "\<forall>i'. i \<le> i' \<and> i' < k \<and> (i' = 0 \<or> \<not> is_word (s ! (i' - 1))) \<longrightarrow> http_here (drop i' s) = None"
  shows "http_search (\<not> (i = 0 \<or> \<not> is_word (s ! (i - 1)))) (drop i s) = Some n"
  using assms
proof (induction "k - i" arbitrary: i)
  case 0
  from "0.hyps" "0.prems"(1) have ik: "i = k" by arith
  have d: "drop k s = s ! k # drop (Suc k) s" using assms(2) by (simp add: Cons_nth_drop_Suc)
  have "http_search False (s ! k # drop (Suc k) s) = Some n"
    using assms(4) unfolding d by simp
  then show ?case unfolding ik using assms(3) d by simp
next
  case (Suc m)
  from Suc.hyps(2) have ik: "i < k" by arith
  then have il: "i < length s" using Suc.prems(2) by simp
  have d: "drop i s = s ! i # drop (Suc i) s" using il by (simp add: Cons_nth_drop_Suc)
  have rec: "http_search (\<not> (Suc i = 0 \<or> \<not> is_word (s ! (Suc i - 1)))) (drop (Suc i) s) = Some n"
  proof (rule Suc.hyps(1))
    show "m = k - Suc i" using Suc.hyps(2) by arith
    show "Suc i \<le> k" using ik by simp
    show "k < length s" by fact
    show "k = 0 \<or> \<not> is_word (s ! (k - 1))" by fact
    show "http_here (drop k s) = Some n" by fact
    show "\<forall>i'. Suc i \<le> i' \<and> i' < k \<and> (i' = 0 \<or> \<not> is_word (s ! (i' - 1)))
        \<longrightarrow> http_here (drop i' s) = None"
    proof (intro allI impI, elim conjE)
      fix i' assume a1: "Suc i \<le> i'" and a2: "i' < k"
        and a3: "i' = 0 \<or> \<not> is_word (s ! (i' - 1))"
      have "i \<le> i' \<and> i' < k \<and> (i' = 0 \<or> \<not> is_word (s ! (i' - 1)))"
        using Suc_leD [OF a1] a2 a3 by (intro conjI)
      then show "http_here (drop i' s) = None" by (rule Suc.prems(5) [rule_format])
    qed
  qed
  show ?case
  proof (cases "i = 0 \<or> \<not> is_word (s ! (i - 1))")
    case True
    have "i \<le> i \<and> i < k \<and> (i = 0 \<or> \<not> is_word (s ! (i - 1)))"
      using True ik by (intro conjI) simp_all
    then have "http_here (drop i s) = None" by (rule Suc.prems(5) [rule_format])
    then have "http_here (s ! i # drop (Suc i) s) = None" using d by simp
    then show ?thesis using True rec unfolding d by simp
  next
    case False
    then show ?thesis using rec unfolding d by simp
  qed
qed

lemma http_search_none:
  assumes "i \<le> length s"
    and "\<forall>i'. i \<le> i' \<and> i' < length s \<and> (i' = 0 \<or> \<not> is_word (s ! (i' - 1))) \<longrightarrow> http_here (drop i' s) = None"
  shows "http_search (\<not> (i = 0 \<or> \<not> is_word (s ! (i - 1)))) (drop i s) = None"
  using assms
proof (induction "length s - i" arbitrary: i)
  case 0
  from "0.hyps" "0.prems"(1) have "i = length s" by arith
  then show ?case by simp
next
  case (Suc m)
  from Suc.hyps(2) have il: "i < length s" by arith
  have d: "drop i s = s ! i # drop (Suc i) s" using il by (simp add: Cons_nth_drop_Suc)
  have rec: "http_search (\<not> (Suc i = 0 \<or> \<not> is_word (s ! (Suc i - 1)))) (drop (Suc i) s) = None"
  proof (rule Suc.hyps(1))
    show "m = length s - Suc i" using Suc.hyps(2) by arith
    show "Suc i \<le> length s" using il by simp
    show "\<forall>i'. Suc i \<le> i' \<and> i' < length s \<and> (i' = 0 \<or> \<not> is_word (s ! (i' - 1)))
        \<longrightarrow> http_here (drop i' s) = None"
    proof (intro allI impI, elim conjE)
      fix i' assume a1: "Suc i \<le> i'" and a2: "i' < length s"
        and a3: "i' = 0 \<or> \<not> is_word (s ! (i' - 1))"
      have "i \<le> i' \<and> i' < length s \<and> (i' = 0 \<or> \<not> is_word (s ! (i' - 1)))"
        using Suc_leD [OF a1] a2 a3 by (intro conjI)
      then show "http_here (drop i' s) = None" by (rule Suc.prems(2) [rule_format])
    qed
  qed
  show ?case
  proof (cases "i = 0 \<or> \<not> is_word (s ! (i - 1))")
    case True
    have "i \<le> i \<and> i < length s \<and> (i = 0 \<or> \<not> is_word (s ! (i - 1)))"
      using True il by (intro conjI) simp_all
    then have "http_here (drop i s) = None" by (rule Suc.prems(2) [rule_format])
    then have "http_here (s ! i # drop (Suc i) s) = None" using d by simp
    then show ?thesis using True rec unfolding d by simp
  next
    case False
    then show ?thesis using rec unfolding d by simp
  qed
qed

lemma http_search_first:
  assumes "first_http s i j"
  shows "http_search False s = Some (code_at s j)"
proof -
  from assms have at: "http_at s i j" and nb: "\<forall>i'<i. \<forall>j'\<le>length s. \<not> http_at s i' j'"
    by (simp_all add: first_http_def no_http_before_iff)
  have il: "i < length s" and bi: "i = 0 \<or> \<not> is_word (s ! (i - 1))"
    using at by (simp_all add: http_at_def)
  have none: "\<forall>i'. 0 \<le> i' \<and> i' < i \<and> (i' = 0 \<or> \<not> is_word (s ! (i' - 1))) \<longrightarrow> http_here (drop i' s) = None"
  proof (intro allI impI)
    fix i' assume h: "0 \<le> i' \<and> i' < i \<and> (i' = 0 \<or> \<not> is_word (s ! (i' - 1)))"
    show "http_here (drop i' s) = None"
    proof (cases "http_here (drop i' s)")
      case None
      then show ?thesis .
    next
      case (Some n)
      from here_http_at [OF Some] h nb show ?thesis by blast
    qed
  qed
  from http_search_from [OF _ il bi http_at_here [OF at] none] show ?thesis by simp
qed

lemma http_search_nowhere:
  assumes "no_http_before s (length s)"
  shows "http_search False s = None"
proof -
  from assms have nb: "\<forall>i'<length s. \<forall>j'\<le>length s. \<not> http_at s i' j'"
    by (simp add: no_http_before_iff)
  have none: "\<forall>i'. 0 \<le> i' \<and> i' < length s \<and> (i' = 0 \<or> \<not> is_word (s ! (i' - 1)))
      \<longrightarrow> http_here (drop i' s) = None"
  proof (intro allI impI)
    fix i' assume h: "0 \<le> i' \<and> i' < length s \<and> (i' = 0 \<or> \<not> is_word (s ! (i' - 1)))"
    show "http_here (drop i' s) = None"
    proof (cases "http_here (drop i' s)")
      case None
      then show ?thesis .
    next
      case (Some n)
      from here_http_at [OF Some] h nb show ?thesis by blast
    qed
  qed
  from http_search_none [OF _ none] show ?thesis by simp
qed

lemma extractStatus_update:
  "extractStatus (e\<lparr>e_status := Some (extractStatus e)\<rparr>) = extractStatus e"
  by (simp add: extractStatus_def)

lemma isNetworkError_update:
  "isNetworkError (e\<lparr>e_status := x\<rparr>) = isNetworkError e"
  by (simp add: isNetworkError_def error_text_def)

lemma AbortError_plain: "\<not> isNetworkError AbortError \<and> extractStatus AbortError = 0"
  by (simp add: isNetworkError_def AbortError_def error_text_def extractStatus_def js_def
      upper_def http_here_def)

subsection \<open>The splitter keeps its invariant\<close>

lemma open_chunk_closed: "open_chunk b c \<Longrightarrow> c \<noteq> [] \<Longrightarrow> closed_chunk b c"
  by (auto simp: open_chunk_def closed_chunk_def below_budget_def within_budget_def
      dest!: spec [of _ "length c"])

lemma open_chunk_Nil: "open_chunk b []"
  by (simp add: open_chunk_def)

lemma open_chunk_snoc:
  assumes "open_chunk b c" "below_budget b (c @ [t])"
  shows "open_chunk b (c @ [t])"
  unfolding open_chunk_def
proof (intro allI impI)
  fix n assume n: "0 < n \<and> n \<le> length (c @ [t])"
  show "below_budget b (take n (c @ [t]))"
  proof (cases "n \<le> length c")
    case True
    then show ?thesis using assms(1) n by (simp add: open_chunk_def)
  next
    case False
    then have "n = length c + 1" using n by simp
    then show ?thesis using assms(2) by simp
  qed
qed

lemma closed_chunk_snoc:
  assumes "open_chunk b c" "within_budget b (c @ [t])"
  shows "closed_chunk b (c @ [t])"
  using assms by (auto simp: closed_chunk_def open_chunk_def)

lemma chunk_snoc:
  "chunk_chars (c @ [t]) = chunk_chars c + int (length t)"
  "chunk_tokens (c @ [t]) = chunk_tokens c + estimateTokens t"
  by (simp_all add: chunk_chars_def chunk_tokens_def)

lemma flush_inv:
  "split_inv b xs st \<Longrightarrow> split_inv b xs (flush st)"
  by (auto simp: split_inv_def flush_def open_chunk_Nil open_chunk_closed
      chunk_chars_def chunk_tokens_def)

lemma split_step_inv:
  assumes "split_inv b xs st"
  shows "split_inv b (xs @ [t]) (split_step b st t)"
proof -
  define st1 where "st1 = (if length (cur st) > 0
        \<and> (int (length (cur st)) + 1 > maxItems b \<or> curChars st + int (length t) > maxChars b
           \<or> curTokens st + estimateTokens t > tokenBudget b)
        then flush st else st)"
  define st2 where "st2 = st1\<lparr>cur := cur st1 @ [t],
        curChars := curChars st1 + int (length t),
        curTokens := curTokens st1 + estimateTokens t\<rparr>"
  have step: "split_step b st t =
      (if int (length (cur st2)) \<ge> maxItems b \<or> curChars st2 \<ge> maxChars b
            \<or> curTokens st2 \<ge> tokenBudget b then flush st2 else st2)"
    by (simp add: split_step_def Let_def st1_def st2_def)
  have i1: "split_inv b xs st1" using assms by (simp add: st1_def flush_inv)
  have w1: "cur st1 = [] \<or> within_budget b (cur st1 @ [t])"
    using assms by (auto simp: st1_def flush_def within_budget_def chunk_snoc split_inv_def)
  have tot: "concat (out st2) @ cur st2 = xs @ [t]"
    "curChars st2 = chunk_chars (cur st2)" "curTokens st2 = chunk_tokens (cur st2)"
    "\<forall>c\<in>set (out st2). closed_chunk b c"
    using i1 by (auto simp: st2_def split_inv_def chunk_snoc)
  have c2: "cur st2 = cur st1 @ [t]" by (simp add: st2_def)
  have o1: "open_chunk b (cur st1)" using i1 by (simp add: split_inv_def)
  show ?thesis
  proof (cases "int (length (cur st2)) \<ge> maxItems b \<or> curChars st2 \<ge> maxChars b
            \<or> curTokens st2 \<ge> tokenBudget b")
    case True
    have "closed_chunk b (cur st2)"
    proof (cases "cur st1 = []")
      case True
      then show ?thesis by (simp add: c2 closed_chunk_def)
    next
      case False
      with w1 have "within_budget b (cur st1 @ [t])" by simp
      then show ?thesis unfolding c2 using o1 by (rule closed_chunk_snoc [rotated])
    qed
    then show ?thesis using True tot
      by (auto simp: step split_inv_def flush_def open_chunk_Nil chunk_chars_def chunk_tokens_def)
  next
    case False
    then have "below_budget b (cur st2)" using tot by (simp add: below_budget_def)
    then have "open_chunk b (cur st2)" unfolding c2 using o1 by (rule open_chunk_snoc [rotated])
    then show ?thesis using False tot by (simp add: step split_inv_def)
  qed
qed

lemma split_loop_inv:
  "split_inv b xs st \<Longrightarrow> split_inv b (xs @ ts) (split_loop b st ts)"
proof (induction ts arbitrary: xs st)
  case Nil
  then show ?case by simp
next
  case (Cons t ts)
  from Cons.IH [OF split_step_inv [OF Cons.prems, of t]] show ?case by simp
qed

lemma split_result:
  "concat (splitInputsByBudget inputs b) = inputs
   \<and> (\<forall>c\<in>set (splitInputsByBudget inputs b). closed_chunk b c)"
proof -
  let ?s0 = "\<lparr>out = [], cur = [], curChars = 0, curTokens = 0\<rparr>"
  have "split_inv b [] ?s0"
    by (simp add: split_inv_def open_chunk_Nil chunk_chars_def chunk_tokens_def)
  from flush_inv [OF split_loop_inv [OF this, of inputs]]
  show ?thesis by (simp add: split_inv_def splitInputsByBudget_def flush_def)
qed

subsection \<open>The scheduler\<close>

lemma trunc_of_int: "trunc (of_int x) = x"
  by (simp add: trunc_def)

lemma sleep_ms_of_int: "0 \<le> x \<Longrightarrow> x < 2 ^ 31 \<Longrightarrow> sleep_ms (of_int x) = x"
  by (simp add: sleep_ms_def trunc_of_int to_int32_id)

lemma sleep_ms_nonneg: "0 \<le> sleep_ms x"
  by (simp add: sleep_ms_def)

lemma clamp_throttle: "50 \<le> clamp (d::int) 50 2000 \<and> clamp d 50 2000 \<le> 2000"
  by (simp add: clamp_def)

lemma sleep_ms_throttle: "sleep_ms (of_int (clamp d 50 2000)) = clamp d 50 2000"
  using clamp_throttle [of d] by (intro sleep_ms_of_int) simp_all

lemma aborted_mono: "aborted it t \<Longrightarrow> t \<le> t' \<Longrightarrow> aborted it t'"
  by (auto simp: aborted_def split: abort_signal.splits option.splits)

lemma runOne_throttled:
  "tempThrottleUntil s > now \<Longrightarrow>
   runOne it now s = (emit now (Started (ident it)) (s\<lparr>running := running s + 1\<rparr>),
                      Suspended (clamp (tempThrottleUntil s - now) 50 2000) AfterThrottle)"
  by (simp add: runOne_def Let_def emit_def sleep_ms_throttle)

lemma runOne_unthrottled:
  "\<not> tempThrottleUntil s > now \<Longrightarrow>
   runOne it now s = after_throttle it now (emit now (Started (ident it)) (s\<lparr>running := running s + 1\<rparr>))"
  by (simp add: runOne_def Let_def emit_def)

lemma after_task_ignores_throttle:
  "after_task it t (s\<lparr>tempThrottleUntil := x\<rparr>)
   = (case after_task it t s of (s2, p) \<Rightarrow> (s2\<lparr>tempThrottleUntil := x\<rparr>, p))"
  by (cases "task_result it") (simp_all add: after_task_def finish_def emit_def)

lemma after_take_ignores_throttle:
  "after_take it t (s\<lparr>tempThrottleUntil := x\<rparr>)
   = (case after_take it t s of (s2, p) \<Rightarrow> (s2\<lparr>tempThrottleUntil := x\<rparr>, p))"
  by (simp add: after_take_def emit_def)

lemma in_take_ignores_throttle:
  "in_take it t (s\<lparr>tempThrottleUntil := x\<rparr>)
   = (case in_take it t s of (s2, p) \<Rightarrow> (s2\<lparr>tempThrottleUntil := x\<rparr>, p))"
proof (cases "take_step (limiter s) (max (1 / 1000) 1) t")
  case (Pair b1 w)
  then show ?thesis by (cases w) (simp_all add: in_take_def emit_def)
qed

lemma after_jitter_ignores_throttle:
  "after_jitter it t (s\<lparr>tempThrottleUntil := x\<rparr>)
   = (case after_jitter it t s of (s2, p) \<Rightarrow> (s2\<lparr>tempThrottleUntil := x\<rparr>, p))"
  by (cases "aborted it t")
     (simp_all add: after_jitter_def in_take_ignores_throttle finish_def emit_def)

lemma after_throttle_ignores_throttle:
  "after_throttle it t (s\<lparr>tempThrottleUntil := x\<rparr>)
   = (case after_throttle it t s of (s2, p) \<Rightarrow> (s2\<lparr>tempThrottleUntil := x\<rparr>, p))"
proof -
  have j: "getJitterDelay (s\<lparr>tempThrottleUntil := x\<rparr>) u = getJitterDelay s u" for u
    by (simp add: getJitterDelay_def)
  show ?thesis
    by (cases "getJitterDelay s (jitter_draw it) = 0")
       (simp_all add: after_throttle_def j after_jitter_ignores_throttle)
qed

lemma resume_ignores_throttle:
  "resume k it t (s\<lparr>tempThrottleUntil := x\<rparr>)
   = (case resume k it t s of (s2, p) \<Rightarrow> (s2\<lparr>tempThrottleUntil := x\<rparr>, p))"
  by (cases k)
     (simp_all add: resume_def after_throttle_ignores_throttle after_jitter_ignores_throttle
        in_take_ignores_throttle after_take_ignores_throttle after_task_ignores_throttle)

lemma after_jitter_aborted:
  "aborted it t \<Longrightarrow>
   after_jitter it t s = (finish (emit t (Rejected (ident it) AbortError) s), Done)"
  by (simp add: after_jitter_def)

lemma after_throttle_aborted:
  assumes "aborted it t"
  shows "settle_alone it t (after_throttle it t s)
       = Some (finish (emit (t + jitter_wait s it) (Rejected (ident it) AbortError) s),
               t + jitter_wait s it)"
proof (cases "getJitterDelay s (jitter_draw it) = 0")
  case True
  then have j: "jitter_wait s it = 0" by (simp add: jitter_wait_def sleep_ms_def trunc_def to_int32_def)
  show ?thesis
    using True assms
    by (subst settle_alone.simps) (simp add: after_throttle_def after_jitter_aborted j)
next
  case False
  have ab: "aborted it (t + jitter_wait s it)"
    using assms by (rule aborted_mono) (simp add: jitter_wait_def sleep_ms_nonneg)
  have 1: "after_throttle it t s = (s, Suspended (jitter_wait s it) AfterJitter)"
    using False by (simp add: after_throttle_def jitter_wait_def)
  show ?thesis
    unfolding 1
    apply (subst settle_alone.simps)
    apply (simp add: resume_def after_jitter_aborted [OF ab])
    apply (subst settle_alone.simps)
    by simp
qed

lemma jitter_wait_started:
  "jitter_wait (emit now ev (s\<lparr>running := r\<rparr>)) it = jitter_wait s it"
  by (simp add: jitter_wait_def getJitterDelay_def emit_def)

lemma finish_started:
  "finish (emit t ev (emit now ev0 (s\<lparr>running := running s + 1\<rparr>)))
   = s\<lparr>events := events s @ [(now, ev0), (t, ev)]\<rparr>"
  by (simp add: finish_def emit_def)

lemma runOne_alone_aborted:
  assumes "aborted it now"
  shows "runOne_alone it now s
       = Some (s\<lparr>events := events s @ [(now, Started (ident it)),
                    (now + throttle_wait s now + jitter_wait s it, Rejected (ident it) AbortError)]\<rparr>,
               now + throttle_wait s now + jitter_wait s it)"
proof -
  define s1 where "s1 = emit now (Started (ident it)) (s\<lparr>running := running s + 1\<rparr>)"
  have jw: "jitter_wait s1 it = jitter_wait s it"
    unfolding s1_def by (rule jitter_wait_started)
  have fin: "finish (emit t (Rejected (ident it) AbortError) s1)
      = s\<lparr>events := events s @ [(now, Started (ident it)), (t, Rejected (ident it) AbortError)]\<rparr>" for t
    unfolding s1_def by (rule finish_started)
  show ?thesis
  proof (cases "tempThrottleUntil s > now")
    case True
    define w where "w = clamp (tempThrottleUntil s - now) 50 2000"
    have tw: "throttle_wait s now = w" using True by (simp add: throttle_wait_def w_def)
    have "0 \<le> w" unfolding w_def using clamp_throttle [of "tempThrottleUntil s - now"] by simp
    then have ab: "aborted it (now + w)"
      by (intro aborted_mono [OF assms]) simp
    have r: "runOne it now s = (s1, Suspended w AfterThrottle)"
      unfolding s1_def w_def by (rule runOne_throttled [OF True])
    have "runOne_alone it now s = settle_alone it now (s1, Suspended w AfterThrottle)"
      by (simp only: runOne_alone_def r)
    also have "\<dots> = settle_alone it (now + w) (after_throttle it (now + w) s1)"
      by (subst settle_alone.simps) (simp add: resume_def)
    also have "\<dots> = Some (finish (emit (now + w + jitter_wait s1 it) (Rejected (ident it) AbortError) s1),
               now + w + jitter_wait s1 it)"
      by (rule after_throttle_aborted [OF ab])
    finally show ?thesis by (simp only: jw fin tw)
  next
    case False
    then have tw: "throttle_wait s now = 0" by (simp add: throttle_wait_def)
    have r: "runOne it now s = after_throttle it now s1"
      unfolding s1_def by (rule runOne_unthrottled [OF False])
    have "runOne_alone it now s = settle_alone it now (after_throttle it now s1)"
      by (simp only: runOne_alone_def r)
    also have "\<dots> = Some (finish (emit (now + jitter_wait s1 it) (Rejected (ident it) AbortError) s1),
               now + jitter_wait s1 it)"
      by (rule after_throttle_aborted [OF assms])
    finally show ?thesis by (simp only: jw fin tw add_0_right)
  qed
qed

lemma runOne_holds_slot:
  assumes "tempThrottleUntil s > now \<or> getJitterDelay s (jitter_draw it) \<noteq> 0"
  shows "\<exists>w k. runOne it now s
           = (emit now (Started (ident it)) (s\<lparr>running := running s + 1\<rparr>), Suspended w k)"
proof (cases "tempThrottleUntil s > now")
  case True
  then show ?thesis by (simp add: runOne_throttled)
next
  case False
  with assms have "getJitterDelay s (jitter_draw it) \<noteq> 0" by simp
  then have "getJitterDelay (emit now (Started (ident it)) (s\<lparr>running := running s + 1\<rparr>))
      (jitter_draw it) \<noteq> 0"
    by (simp add: getJitterDelay_def emit_def split: if_splits)
  then show ?thesis using False
    by (simp add: runOne_unthrottled after_throttle_def Let_def)
qed

subsection \<open>The requests of a retried call\<close>

lemma issue_log: "issue net r w = (rep, w1) \<Longrightarrow> requests w1 = requests w @ [r] \<and> writes w1 = writes w"
  by (auto simp: issue_def split: prod.splits)

lemma singleFetch_log:
  "singleFetch net t w = (res, w1) \<Longrightarrow> requests w1 = requests w @ [OpenaiSingle t] \<and> writes w1 = writes w"
  by (auto simp: singleFetch_def split: prod.splits reply.splits dest: issue_log)

lemma batchFetch_log:
  "batchFetch net ts w = (res, w1) \<Longrightarrow> requests w1 = requests w @ [OpenaiBatch ts] \<and> writes w1 = writes w"
  by (auto simp: batchFetch_def split: prod.splits reply.splits option.splits dest: issue_log)

lemma customFetch_log:
  "customFetch net ts w = (res, w1) \<Longrightarrow> requests w1 = requests w @ [CustomBatch ts] \<and> writes w1 = writes w"
  by (auto simp: customFetch_def split: prod.splits reply.splits option.splits dest: issue_log)

lemma withRetry_from_log:
  fixes doFetch :: "'n world \<Rightarrow> (js_error + 'a) \<times> 'n world"
  assumes step: "\<And>w res w1. doFetch w = (res, w1) \<Longrightarrow> requests w1 = requests w @ [rq] \<and> writes w1 = writes w"
    and hook: "onRetry opts = (\<lambda>info w. w)"
  shows "withRetry_from (\<lambda>attempt. doFetch) opts rnd a w = (res, w') \<Longrightarrow>
         (\<exists>k\<ge>1. requests w' = requests w @ replicate k rq) \<and> writes w' = writes w"
proof (induction "nat (maxRetries opts - a)" arbitrary: a w rule: less_induct)
  case less
  obtain r w1 where d: "doFetch w = (r, w1)" by (cases "doFetch w")
  from step [OF d] have l1: "requests w1 = requests w @ [rq]" "writes w1 = writes w" by simp_all
  note run = less.prems [unfolded withRetry_from.simps [of "\<lambda>attempt. doFetch" opts rnd a w]]
  show ?case
  proof (cases r)
    case (Inr v)
    with run d have "w' = w1" by simp
    with l1 show ?thesis by (auto intro: exI [of _ 1])
  next
    case (Inl e)
    show ?thesis
    proof (cases "\<not> retriable opts e a \<or> a \<ge> maxRetries opts")
      case True
      with run d Inl have "w' = w1" by auto
      with l1 show ?thesis by (auto intro: exI [of _ 1])
    next
      case False
      with run d Inl hook
      have rec: "withRetry_from (\<lambda>attempt. doFetch) opts rnd (a + 1) w1 = (res, w')"
        by (simp add: Let_def)
      have "nat (maxRetries opts - (a + 1)) < nat (maxRetries opts - a)" using False by simp
      from less.hyps [OF this rec]
      obtain k where "k \<ge> 1" "requests w' = requests w1 @ replicate k rq" "writes w' = writes w1"
        by blast
      with l1 have "requests w' = requests w @ replicate (Suc k) rq" "writes w' = writes w"
        by (simp_all add: replicate_app_Cons_same)
      then show ?thesis by (intro conjI exI [of _ "Suc k"]) simp_all
    qed
  qed
qed

lemma scheduledFetch_log:
  fixes doFetch :: "'n world \<Rightarrow> (js_error + 'a) \<times> 'n world"
  assumes "\<And>w res w1. doFetch w = (res, w1) \<Longrightarrow> requests w1 = requests w @ [rq] \<and> writes w1 = writes w"
    and "scheduledFetch doFetch opts rnd w = (res, w')"
  shows "(\<exists>k\<ge>1. requests w' = requests w @ replicate k rq) \<and> writes w' = writes w"
proof -
  from assms(2)
  have "withRetry_from (\<lambda>attempt. doFetch) (opts\<lparr>onRetry := \<lambda>info w. w\<rparr>) rnd 0 w = (res, w')"
    by (simp add: scheduledFetch_def withRetry_def)
  from withRetry_from_log [OF assms(1) _ this] show ?thesis by simp
qed

lemma openaiSingle_log:
  assumes "openaiSingle net cfg t rnd w = (Inr v, w')"
  shows "(\<exists>k\<ge>1. requests w' = requests w @ replicate k (OpenaiSingle t)) \<and> writes w' = writes w"
proof -
  from assms have "scheduledFetch (singleFetch net t) (getRetryOpts cfg) rnd w = (Inr v, w')"
    by (auto simp: openaiSingle_def split: if_splits)
  then show ?thesis by (rule scheduledFetch_log [OF singleFetch_log, rotated]) 
qed

lemma fallback_loop_log:
  "fallback_loop net cfg rnd ts acc w = (Inr res, w') \<Longrightarrow>
   length res = length acc + length ts
   \<and> (\<exists>ks. length ks = length ts \<and> (\<forall>k\<in>set ks. 1 \<le> k)
         \<and> requests w' = requests w @ concat (map2 (\<lambda>t k. replicate k (OpenaiSingle t)) ts ks))
   \<and> writes w' = writes w"
proof (induction ts arbitrary: acc w)
  case Nil
  then show ?case by simp
next
  case (Cons t ts)
  from Cons.prems obtain v w1 where s: "openaiSingle net cfg t rnd w = (Inr v, w1)"
    and r: "fallback_loop net cfg rnd ts (acc @ [v]) w1 = (Inr res, w')"
    by (auto split: prod.splits sum.splits)
  from openaiSingle_log [OF s] obtain k where k: "k \<ge> 1"
    "requests w1 = requests w @ replicate k (OpenaiSingle t)" "writes w1 = writes w" by blast
  from Cons.IH [OF r] obtain ks where ks: "length res = length (acc @ [v]) + length ts"
    "length ks = length ts" "\<forall>k\<in>set ks. 1 \<le> k"
    "requests w' = requests w1 @ concat (map2 (\<lambda>t k. replicate k (OpenaiSingle t)) ts ks)"
    "writes w' = writes w1" by blast
  show ?case
    using k ks by (intro conjI exI [of _ "k # ks"]) simp_all
qed

subsection \<open>The orchestrator\<close>

lemma map_get_delete:
  "map_get (map_delete m k) k' = (if k' = k then None else map_get m k')"
  by (induction m) (auto simp: map_get_def map_delete_def)

lemma map_delete_keys: "k \<notin> fst ` set (map_delete m k)"
  by (auto simp: map_delete_def)

lemma map_get_append:
  "map_get (m @ [(k, e)]) k' = (case map_get m k' of Some x \<Rightarrow> Some x | None \<Rightarrow> if k' = k then Some e else None)"
  by (induction m) (auto simp: map_get_def)

lemma map_get_touch:
  "map_get (c_map (touch c k e)) k' = (if k' = k then Some e else map_get (c_map c) k')"
  using map_delete_keys [of k "c_map c"]
  by (simp add: touch_def map_set_def map_get_append map_get_delete split: option.splits)

lemma touch_enabled: "c_enabled (touch c k e) = c_enabled c"
  by (simp add: touch_def)

lemma cache_get_fst:
  "fst (cache_get c now k)
   = (if c_enabled c
      then (case map_get (c_map c) k of
              None \<Rightarrow> Undefined
            | Some e \<Rightarrow> if isExpired now e then Undefined else ent_v e)
      else Undefined)"
  by (simp add: cache_get_def split: option.splits)

lemma cache_get_snd:
  "c_enabled (snd (cache_get c now k1)) = c_enabled c
   \<and> map_get (c_map (snd (cache_get c now k1))) k2
       = (if k2 = k1 \<and> c_enabled c
          then (case map_get (c_map c) k1 of
                  None \<Rightarrow> None
                | Some e \<Rightarrow> if isExpired now e then None else Some e)
          else map_get (c_map c) k2)"
  by (simp add: cache_get_def map_get_delete map_get_touch touch_enabled split: option.splits)

lemma cache_get_view:
  "fst (cache_get (snd (cache_get c now k1)) now k2) = fst (cache_get c now k2)"
  unfolding cache_get_fst [of "snd (cache_get c now k1)"] cache_get_fst [of c]
  by (simp add: cache_get_snd split: option.splits)

lemma miss_after_get: "miss lc cfg now (snd (cache_get c now k)) t = miss lc cfg now c t"
  by (simp add: miss_def cache_get_view)

lemma zip_upt_Cons: "zip [i..<i + Suc n] (t # ts) = (i, t) # zip [Suc i..<Suc i + n] ts"
  by (simp add: upt_conv_Cons)

lemma scan_pending:
  "scan lc cfg now ts i (outs, pend, c) = (outs', pend', c') \<Longrightarrow>
     pend' = pend @ map (\<lambda>(j, t). \<lparr>p_idx = j, p_text = t, p_key = key_of lc cfg t\<rparr>)
                        (filter (\<lambda>(j, t). miss lc cfg now c t) (zip [i..<i + length ts] ts))
   \<and> (\<forall>t. miss lc cfg now c' t = miss lc cfg now c t)
   \<and> length outs' = length outs"
proof (induction ts arbitrary: i outs pend c)
  case Nil
  then show ?case by simp
next
  case (Cons t ts)
  have z: "zip [i..<i + length (t # ts)] (t # ts) = (i, t) # zip [Suc i..<Suc i + length ts] ts"
    using zip_upt_Cons [of i "length ts" t ts] by simp
  show ?case
  proof (cases "skipped lc cfg t")
    case True
    then have m: "\<not> miss lc cfg now c t" by (simp add: miss_def)
    from Cons.prems True
    have "scan lc cfg now ts (Suc i) (outs[i := Str t], pend, c) = (outs', pend', c')" by simp
    from Cons.IH [OF this] show ?thesis unfolding z using m by simp
  next
    case ns: False
    obtain cached c1 where g: "cache_get c now (key_of lc cfg t) = (cached, c1)"
      by (cases "cache_get c now (key_of lc cfg t)")
    have c1: "c1 = snd (cache_get c now (key_of lc cfg t))" by (simp add: g)
    have m1: "miss lc cfg now c1 x = miss lc cfg now c x" for x
      unfolding c1 by (rule miss_after_get)
    show ?thesis
    proof (cases "cached = Undefined")
      case True
      then have m: "miss lc cfg now c t" using ns g by (simp add: miss_def)
      from Cons.prems ns g True
      have "scan lc cfg now ts (Suc i)
              (outs, pend @ [\<lparr>p_idx = i, p_text = t, p_key = key_of lc cfg t\<rparr>], c1) = (outs', pend', c')"
        by simp
      from Cons.IH [OF this] show ?thesis unfolding z using m by (simp add: m1)
    next
      case False
      then have m: "\<not> miss lc cfg now c t" using g by (simp add: miss_def)
      from Cons.prems ns g False
      have "scan lc cfg now ts (Suc i) (outs[i := cached], pend, c1) = (outs', pend', c')" by simp
      from Cons.IH [OF this] show ?thesis unfolding z using m by (simp add: m1)
    qed
  qed
qed

lemma zip_upt_nth: "zip [0..<length ts] ts = map (\<lambda>i. (i, ts ! i)) [0..<length ts]"
  by (rule nth_equalityI) simp_all

lemma scan_pending_entries:
  assumes "scan lc cfg now texts 0 (outs, [], c) = (outs', pend', c')"
  shows "pend' = pending_entries lc cfg now c texts \<and> length outs' = length outs"
proof -
  from scan_pending [OF assms]
  have "pend' = map (\<lambda>(j, t). \<lparr>p_idx = j, p_text = t, p_key = key_of lc cfg t\<rparr>)
                    (filter (\<lambda>(j, t). miss lc cfg now c t) (zip [0..<length texts] texts))"
    and l: "length outs' = length outs" by simp_all
  then have "pend' = pending_entries lc cfg now c texts"
    by (simp add: zip_upt_nth filter_map comp_def pending_entries_def)
  with l show ?thesis by simp
qed

lemma pending_entries_idx:
  "distinct (map p_idx (pending_entries lc cfg now c texts))
   \<and> (\<forall>p\<in>set (pending_entries lc cfg now c texts). p_idx p < length texts)"
  by (auto simp: pending_entries_def comp_def distinct_map inj_on_def)

lemma assign_length: "length (assign ps vs outs) = length outs"
  by (induction ps vs outs rule: assign.induct) simp_all

lemma assign_other: "i \<notin> p_idx ` set ps \<Longrightarrow> assign ps vs outs ! i = outs ! i"
  by (induction ps vs outs rule: assign.induct) auto

lemma assign_nth:
  "distinct (map p_idx ps) \<Longrightarrow> length vs = length ps \<Longrightarrow> \<forall>p\<in>set ps. p_idx p < length outs \<Longrightarrow>
   j < length ps \<Longrightarrow> assign ps vs outs ! p_idx (ps ! j) = vs ! j"
proof (induction ps arbitrary: vs outs j)
  case Nil
  then show ?case by simp
next
  case (Cons p ps)
  then obtain v vs' where vs: "vs = v # vs'" by (cases vs) auto
  show ?case
  proof (cases j)
    case 0
    have "p_idx p \<notin> p_idx ` set ps" using Cons.prems(1) by simp
    then have "assign ps vs' (outs[p_idx p := v]) ! p_idx p = (outs[p_idx p := v]) ! p_idx p"
      by (rule assign_other)
    then show ?thesis using 0 vs Cons.prems(3) by simp
  next
    case (Suc j')
    have "assign ps vs' (outs[p_idx p := v]) ! p_idx (ps ! j') = vs' ! j'"
      using Cons.prems Suc vs by (intro Cons.IH) simp_all
    then show ?thesis using Suc vs by simp
  qed
qed

lemma store_log:
  "writes (store now k v w) = writes w @ [(k, v)]" "requests (store now k v w) = requests w"
  by (simp_all add: store_def)

lemma map_back_result:
  "map_back now arr k ps (outs, w) = (outs', w') \<Longrightarrow>
   outs' = assign ps (map (\<lambda>j. Str (if j < length arr then arr ! j else [])) [k..<k + length ps]) outs
   \<and> writes w' = writes w @ zip (map p_key ps)
        (map (\<lambda>j. Str (if j < length arr then arr ! j else [])) [k..<k + length ps])
   \<and> requests w' = requests w"
proof (induction ps arbitrary: k outs w)
  case Nil
  then show ?case by simp
next
  case (Cons p ps)
  have "[k..<k + length (p # ps)] = k # [Suc k..<k + length (p # ps)]"
    by (rule upt_conv_Cons) simp
  then have u: "[k..<k + length (p # ps)] = k # [Suc k..<Suc k + length ps]"
    by (simp only: list.size add_Suc_right add_Suc add_0_right)
  from Cons.prems
  have "map_back now arr (Suc k) ps
          (outs[p_idx p := Str (if k < length arr then arr ! k else [])],
           store now (p_key p) (Str (if k < length arr then arr ! k else [])) w) = (outs', w')"
    by (simp add: Let_def)
  from Cons.IH [OF this] show ?case unfolding u by (simp add: store_log)
qed

lemma openaiBatch_writes:
  assumes "openaiBatchTranslateArray net cfg ts rnd w = (Inr res, w')"
  shows "writes w' = writes w"
proof -
  from assms have k: "cfg_apiKey cfg \<noteq> []"
    by (auto simp: openaiBatchTranslateArray_def split: if_splits)
  obtain r w1 where sf: "scheduledFetch (batchFetch net ts) (getRetryOpts cfg) rnd w = (r, w1)"
    by (cases "scheduledFetch (batchFetch net ts) (getRetryOpts cfg) rnd w :: (js_error + jsstring list) \<times> 'a world")
  from scheduledFetch_log [OF batchFetch_log sf] have w1: "writes w1 = writes w" by simp
  show ?thesis
  proof (cases r)
    case (Inr arr)
    with assms k sf have "w' = w1" by (simp add: openaiBatchTranslateArray_def)
    with w1 show ?thesis by simp
  next
    case (Inl e)
    with assms k sf have "fallback_loop net cfg rnd ts [] w1 = (Inr res, w')"
      by (simp add: openaiBatchTranslateArray_def split: if_splits)
    from fallback_loop_log [OF this] w1 show ?thesis by simp
  qed
qed

lemma batch_loop_writes:
  "batch_loop net cfg rnd chunks flat w = (Inr res, w') \<Longrightarrow> writes w' = writes w"
proof (induction chunks arbitrary: flat w)
  case Nil
  then show ?case by simp
next
  case (Cons c cs)
  from Cons.prems obtain part w1 where b: "openaiBatchTranslateArray net cfg c rnd w = (Inr part, w1)"
    and r: "batch_loop net cfg rnd cs (flat @ part) w1 = (Inr res, w')"
    by (auto split: prod.splits sum.splits)
  from Cons.IH [OF r] openaiBatch_writes [OF b] show ?case by simp
qed

lemma customTranslateBatch_log:
  assumes "customTranslateBatch net cfg ts rnd w = (Inr arr, w')"
  shows "writes w' = writes w
       \<and> (cfg_endpoint cfg \<noteq> [] \<longrightarrow> (\<exists>k\<ge>1. requests w' = requests w @ replicate k (CustomBatch ts)))"
proof (cases "cfg_endpoint cfg = []")
  case True
  with assms show ?thesis by (simp add: customTranslateBatch_def)
next
  case False
  with assms have "scheduledFetch (customFetch net ts) (getRetryOpts cfg) rnd w = (Inr arr, w')"
    by (simp add: customTranslateBatch_def)
  from scheduledFetch_log [OF customFetch_log this] False show ?thesis by simp
qed

lemma passive_fields:
  assumes f: "\<And>w n r. f (w\<lparr>net_state := n, requests := r\<rparr>) = (f w)\<lparr>net_state := n, requests := r\<rparr>"
  shows "net_state (f w) = net_state w" "requests (f w) = requests w"
proof -
  have "f w = (f w)\<lparr>net_state := net_state w, requests := requests w\<rparr>"
    using f [where w = w and n = "net_state w" and r = "requests w"] by simp
  then have "net_state (f w) = net_state ((f w)\<lparr>net_state := net_state w, requests := requests w\<rparr>)"
    "requests (f w) = requests ((f w)\<lparr>net_state := net_state w, requests := requests w\<rparr>)"
    by simp_all
  then show "net_state (f w) = net_state w" "requests (f w) = requests w" by simp_all
qed

lemma issue_comm:
  assumes f: "\<And>w n r. f (w\<lparr>net_state := n, requests := r\<rparr>) = (f w)\<lparr>net_state := n, requests := r\<rparr>"
  shows "issue net rq (f w) = apsnd f (issue net rq w)"
  by (simp add: issue_def passive_fields [of f, OF f] f split: prod.splits)

lemma singleFetch_comm:
  assumes f: "\<And>w n r. f (w\<lparr>net_state := n, requests := r\<rparr>) = (f w)\<lparr>net_state := n, requests := r\<rparr>"
  shows "singleFetch net t (f w) = apsnd f (singleFetch net t w)"
  by (simp add: singleFetch_def issue_comm [of f, OF f] split: prod.splits reply.splits)

lemma batchFetch_comm:
  assumes f: "\<And>w n r. f (w\<lparr>net_state := n, requests := r\<rparr>) = (f w)\<lparr>net_state := n, requests := r\<rparr>"
  shows "batchFetch net ts (f w) = apsnd f (batchFetch net ts w)"
  by (simp add: batchFetch_def issue_comm [of f, OF f] split: prod.splits reply.splits option.splits)

lemma customFetch_comm:
  assumes f: "\<And>w n r. f (w\<lparr>net_state := n, requests := r\<rparr>) = (f w)\<lparr>net_state := n, requests := r\<rparr>"
  shows "customFetch net ts (f w) = apsnd f (customFetch net ts w)"
  by (simp add: customFetch_def issue_comm [of f, OF f] split: prod.splits reply.splits option.splits)

lemma withRetry_from_comm:
  fixes fn :: "int \<Rightarrow> 'n world \<Rightarrow> (js_error + 'a) \<times> 'n world"
  assumes fn: "\<And>a w. fn a (f w) = apsnd f (fn a w)"
    and hook: "onRetry opts = (\<lambda>info w. w)"
  shows "withRetry_from fn opts rnd a (f w) = apsnd f (withRetry_from fn opts rnd a w)"
proof (induction "nat (maxRetries opts - a)" arbitrary: a w rule: less_induct)
  case less
  obtain r w1 where d: "fn a w = (r, w1)" by (cases "fn a w")
  then have d': "fn a (f w) = (r, f w1)" by (simp add: fn)
  show ?case
  proof (cases r)
    case (Inr v)
    then show ?thesis
      by (simp add: withRetry_from.simps [of fn opts rnd a "f w"]
          withRetry_from.simps [of fn opts rnd a w] d d')
  next
    case (Inl e)
    show ?thesis
    proof (cases "\<not> retriable opts e a \<or> a \<ge> maxRetries opts")
      case True
      then show ?thesis using Inl
        by (auto simp: withRetry_from.simps [of fn opts rnd a "f w"]
            withRetry_from.simps [of fn opts rnd a w] d d')
    next
      case False
      have lt: "nat (maxRetries opts - (a + 1)) < nat (maxRetries opts - a)" using False by simp
      have l: "withRetry_from fn opts rnd a (f w) = withRetry_from fn opts rnd (a + 1) (f w1)"
        using False Inl
        by (simp add: withRetry_from.simps [of fn opts rnd a "f w"] d' hook Let_def)
      have r: "withRetry_from fn opts rnd a w = withRetry_from fn opts rnd (a + 1) w1"
        using False Inl
        by (simp add: withRetry_from.simps [of fn opts rnd a w] d hook Let_def)
      show ?thesis unfolding l r by (rule less.hyps [OF lt])
    qed
  qed
qed

lemma scheduledFetch_comm:
  fixes doFetch :: "'n world \<Rightarrow> (js_error + 'a) \<times> 'n world"
  assumes "\<And>w. doFetch (f w) = apsnd f (doFetch w)"
  shows "scheduledFetch doFetch opts rnd (f w) = apsnd f (scheduledFetch doFetch opts rnd w)"
  unfolding scheduledFetch_def withRetry_def
  by (rule withRetry_from_comm) (simp_all add: assms)

lemma openaiSingle_comm:
  assumes f: "\<And>w n r. f (w\<lparr>net_state := n, requests := r\<rparr>) = (f w)\<lparr>net_state := n, requests := r\<rparr>"
  shows "openaiSingle net cfg t rnd (f w) = apsnd f (openaiSingle net cfg t rnd w)"
  by (simp add: openaiSingle_def scheduledFetch_comm [of "singleFetch net t" f]
      singleFetch_comm [of f, OF f])

lemma fallback_loop_comm:
  assumes f: "\<And>w n r. f (w\<lparr>net_state := n, requests := r\<rparr>) = (f w)\<lparr>net_state := n, requests := r\<rparr>"
  shows "fallback_loop net cfg rnd ts acc (f w) = apsnd f (fallback_loop net cfg rnd ts acc w)"
proof (induction ts arbitrary: acc w)
  case Nil
  then show ?case by simp
next
  case (Cons t ts)
  show ?case
    by (simp add: openaiSingle_comm [of f, OF f] Cons.IH split: prod.splits sum.splits)
qed

lemma openaiBatch_comm:
  assumes f: "\<And>w n r. f (w\<lparr>net_state := n, requests := r\<rparr>) = (f w)\<lparr>net_state := n, requests := r\<rparr>"
  shows "openaiBatchTranslateArray net cfg ts rnd (f w)
       = apsnd f (openaiBatchTranslateArray net cfg ts rnd w)"
  by (simp add: openaiBatchTranslateArray_def scheduledFetch_comm [of "batchFetch net ts" f]
      batchFetch_comm [of f, OF f] fallback_loop_comm [of f, OF f] split: prod.splits sum.splits)

lemma batch_loop_comm:
  assumes f: "\<And>w n r. f (w\<lparr>net_state := n, requests := r\<rparr>) = (f w)\<lparr>net_state := n, requests := r\<rparr>"
  shows "batch_loop net cfg rnd chunks flat (f w) = apsnd f (batch_loop net cfg rnd chunks flat w)"
proof (induction chunks arbitrary: flat w)
  case Nil
  then show ?case by simp
next
  case (Cons c cs)
  show ?case
    by (simp add: openaiBatch_comm [of f, OF f] Cons.IH split: prod.splits sum.splits)
qed

lemma customTranslateBatch_comm:
  assumes f: "\<And>w n r. f (w\<lparr>net_state := n, requests := r\<rparr>) = (f w)\<lparr>net_state := n, requests := r\<rparr>"
  shows "customTranslateBatch net cfg ts rnd (f w) = apsnd f (customTranslateBatch net cfg ts rnd w)"
  by (simp add: customTranslateBatch_def scheduledFetch_comm [of "customFetch net ts" f]
      customFetch_comm [of f, OF f])

lemma provider_calls_comm:
  assumes f: "\<And>w n r. f (w\<lparr>net_state := n, requests := r\<rparr>) = (f w)\<lparr>net_state := n, requests := r\<rparr>"
  shows "provider_calls net cfg rnd seq (f w) = apsnd f (provider_calls net cfg rnd seq w)"
  by (simp add: provider_calls_def batch_loop_comm [of f, OF f] fallback_loop_comm [of f, OF f]
      customTranslateBatch_comm [of f, OF f])

lemma store_passive:
  "store now k v (w\<lparr>net_state := n, requests := r\<rparr>) = (store now k v w)\<lparr>net_state := n, requests := r\<rparr>"
  by (simp add: store_def)

lemma store_fields:
  "net_state (store now k v w) = net_state w"
  by (simp add: store_def)

lemma retried_replicate: "1 \<le> k \<Longrightarrow> retried rq (replicate k rq)"
  by (cases k) (simp_all add: retried_def)

lemma single_trace_Cons:
  assumes "retried (OpenaiSingle t) seg" "single_trace ts rs"
  shows "single_trace (t # ts) (seg @ rs)"
proof -
  have "length seg \<in> set [0..<Suc (length (seg @ rs))]" by simp
  moreover have "retried (OpenaiSingle t) (take (length seg) (seg @ rs))
      \<and> single_trace ts (drop (length seg) (seg @ rs))"
    using assms by simp
  ultimately show ?thesis unfolding single_trace.simps list_ex_iff by (rule bexI [rotated])
qed

lemma batch_trace_intro:
  assumes "retried (OpenaiBatch c) seg" "tail = [] \<or> single_trace c tail"
  shows "batch_trace c (seg @ tail)"
proof -
  have "length seg \<in> set [0..<Suc (length (seg @ tail))]" by simp
  moreover have "retried (OpenaiBatch c) (take (length seg) (seg @ tail))
      \<and> (drop (length seg) (seg @ tail) = [] \<or> single_trace c (drop (length seg) (seg @ tail)))"
    using assms by simp
  ultimately show ?thesis unfolding batch_trace_def list_ex_iff by (rule bexI [rotated])
qed

lemma batches_trace_Cons:
  assumes "batch_trace c seg" "batches_trace cs rs"
  shows "batches_trace (c # cs) (seg @ rs)"
proof -
  have "length seg \<in> set [0..<Suc (length (seg @ rs))]" by simp
  moreover have "batch_trace c (take (length seg) (seg @ rs))
      \<and> batches_trace cs (drop (length seg) (seg @ rs))"
    using assms by simp
  ultimately show ?thesis unfolding batches_trace.simps list_ex_iff by (rule bexI [rotated])
qed

lemma openaiSingle_trace:
  assumes "openaiSingle net cfg t rnd w = (Inr v, w')"
  shows "\<exists>seg. requests w' = requests w @ seg \<and> retried (OpenaiSingle t) seg"
  using openaiSingle_log [OF assms] retried_replicate by blast

lemma fallback_loop_trace:
  "fallback_loop net cfg rnd ts acc w = (Inr res, w') \<Longrightarrow>
   \<exists>rs. requests w' = requests w @ rs \<and> single_trace ts rs"
proof (induction ts arbitrary: acc w)
  case Nil
  then show ?case by simp
next
  case (Cons t ts)
  from Cons.prems obtain v w1 where s: "openaiSingle net cfg t rnd w = (Inr v, w1)"
    and r: "fallback_loop net cfg rnd ts (acc @ [v]) w1 = (Inr res, w')"
    by (auto split: prod.splits sum.splits)
  from openaiSingle_trace [OF s] obtain seg where
    seg: "requests w1 = requests w @ seg" "retried (OpenaiSingle t) seg" by blast
  from Cons.IH [OF r] obtain rs where rs: "requests w' = requests w1 @ rs" "single_trace ts rs"
    by blast
  have "requests w' = requests w @ (seg @ rs)" using seg(1) rs(1) by simp
  moreover have "single_trace (t # ts) (seg @ rs)" using seg(2) rs(2) by (rule single_trace_Cons)
  ultimately show ?case by blast
qed

lemma openaiBatch_trace:
  assumes "openaiBatchTranslateArray net cfg ts rnd w = (Inr res, w')"
  shows "\<exists>rs. requests w' = requests w @ rs \<and> batch_trace ts rs"
proof -
  from assms have k: "cfg_apiKey cfg \<noteq> []"
    by (auto simp: openaiBatchTranslateArray_def split: if_splits)
  obtain r w1 where sf: "scheduledFetch (batchFetch net ts) (getRetryOpts cfg) rnd w = (r, w1)"
    by (cases "scheduledFetch (batchFetch net ts) (getRetryOpts cfg) rnd w :: (js_error + jsstring list) \<times> 'a world")
  have "(\<exists>k\<ge>1. requests w1 = requests w @ replicate k (OpenaiBatch ts)) \<and> writes w1 = writes w"
  proof (rule scheduledFetch_log [OF _ sf])
    fix v res v1 assume "batchFetch net ts v = (res, v1)"
    then show "requests v1 = requests v @ [OpenaiBatch ts] \<and> writes v1 = writes v"
      by (rule batchFetch_log)
  qed
  then obtain n where
    n: "1 \<le> n" "requests w1 = requests w @ replicate n (OpenaiBatch ts)" by blast
  have seg: "retried (OpenaiBatch ts) (replicate n (OpenaiBatch ts))"
    using n(1) by (rule retried_replicate)
  show ?thesis
  proof (cases r)
    case (Inr arr)
    with assms k sf have "w' = w1" by (simp add: openaiBatchTranslateArray_def)
    then have "requests w' = requests w @ (replicate n (OpenaiBatch ts) @ [])" using n(2) by simp
    moreover have "batch_trace ts (replicate n (OpenaiBatch ts) @ [])"
      using seg by (rule batch_trace_intro) simp
    ultimately show ?thesis by blast
  next
    case (Inl e)
    with assms k sf have "fallback_loop net cfg rnd ts [] w1 = (Inr res, w')"
      by (simp add: openaiBatchTranslateArray_def split: if_splits)
    from fallback_loop_trace [OF this] obtain rs where
      rs: "requests w' = requests w1 @ rs" "single_trace ts rs" by blast
    have "requests w' = requests w @ (replicate n (OpenaiBatch ts) @ rs)" using n(2) rs(1) by simp
    moreover have "batch_trace ts (replicate n (OpenaiBatch ts) @ rs)"
      using seg rs(2) by (intro batch_trace_intro) simp_all
    ultimately show ?thesis by blast
  qed
qed

lemma batch_loop_trace:
  "batch_loop net cfg rnd chunks flat w = (Inr res, w') \<Longrightarrow>
   \<exists>rs. requests w' = requests w @ rs \<and> batches_trace chunks rs"
proof (induction chunks arbitrary: flat w)
  case Nil
  then show ?case by simp
next
  case (Cons c cs)
  from Cons.prems obtain part w1 where b: "openaiBatchTranslateArray net cfg c rnd w = (Inr part, w1)"
    and r: "batch_loop net cfg rnd cs (flat @ part) w1 = (Inr res, w')"
    by (auto split: prod.splits sum.splits)
  from openaiBatch_trace [OF b] obtain seg where
    seg: "requests w1 = requests w @ seg" "batch_trace c seg" by blast
  from Cons.IH [OF r] obtain rs where rs: "requests w' = requests w1 @ rs" "batches_trace cs rs"
    by blast
  have "requests w' = requests w @ (seg @ rs)" using seg(1) rs(1) by simp
  moreover have "batches_trace (c # cs) (seg @ rs)" using seg(2) rs(2) by (rule batches_trace_Cons)
  ultimately show ?case by blast
qed

lemma provider_calls_trace:
  assumes "provider_calls net cfg rnd seq w = (Inr arr, w')"
  shows "writes w' = writes w
       \<and> (\<exists>rs. requests w' = requests w @ rs \<and> provider_trace cfg seq rs)"
proof (cases "providerType cfg = js ''openai-compatible''")
  case oa: True
  show ?thesis
  proof (cases "batching_enabled cfg")
    case True
    with assms oa have b: "batch_loop net cfg rnd (splitInputsByBudget seq (batching cfg)) [] w
        = (Inr arr, w')" by (simp add: provider_calls_def)
    from batch_loop_trace [OF b] batch_loop_writes [OF b] oa True show ?thesis
      by (simp add: provider_trace_def)
  next
    case False
    with assms oa have b: "fallback_loop net cfg rnd seq [] w = (Inr arr, w')"
      by (simp add: provider_calls_def)
    from fallback_loop_trace [OF b] fallback_loop_log [OF b] oa False show ?thesis
      by (simp add: provider_trace_def)
  qed
next
  case cu: False
  with assms have c: "customTranslateBatch net cfg seq rnd w = (Inr arr, w')"
    by (simp add: provider_calls_def)
  show ?thesis
  proof (cases "cfg_endpoint cfg = []")
    case True
    with c have "w' = w" by (simp add: customTranslateBatch_def)
    with cu True show ?thesis by (simp add: provider_trace_def)
  next
    case False
    from customTranslateBatch_log [OF c] False obtain k where
      k: "1 \<le> k" "requests w' = requests w @ replicate k (CustomBatch seq)" "writes w' = writes w"
      by blast
    have "retried (CustomBatch seq) (replicate k (CustomBatch seq))"
      using k(1) by (rule retried_replicate)
    with k cu False show ?thesis by (auto simp: provider_trace_def)
  qed
qed

lemma map_back_net:
  "map_back now arr k ps (outs, w) = (outs', w') \<Longrightarrow> net_state w' = net_state w"
proof (induction ps arbitrary: k outs w)
  case Nil
  then show ?case by simp
next
  case (Cons p ps)
  from Cons.prems
  have "map_back now arr (Suc k) ps
          (outs[p_idx p := Str (if k < length arr then arr ! k else [])],
           store now (p_key p) (Str (if k < length arr then arr ! k else [])) w) = (outs', w')"
    by (simp add: Let_def)
  from Cons.IH [OF this] show ?case by (simp add: store_fields)
qed

lemma item_loop_calls:
  "item_loop net cfg now rnd ps (outs, w) = (Inr outs', w') \<Longrightarrow>
   \<exists>arr w2. fallback_loop net cfg rnd (map p_text ps) acc w = (Inr (acc @ arr), w2)
      \<and> length arr = length ps
      \<and> outs' = assign ps (map Str arr) outs
      \<and> writes w' = writes w @ zip (map p_key ps) (map Str arr)
      \<and> requests w' = requests w2 \<and> net_state w' = net_state w2"
proof (induction ps arbitrary: outs w acc)
  case Nil
  then show ?case by simp
next
  case (Cons p ps)
  from Cons.prems obtain v w1 where s: "openaiSingle net cfg (p_text p) rnd w = (Inr v, w1)"
    and r: "item_loop net cfg now rnd ps (outs[p_idx p := Str v], store now (p_key p) (Str v) w1)
              = (Inr outs', w')"
    by (auto split: prod.splits sum.splits)
  from openaiSingle_log [OF s] have w1: "writes w1 = writes w" by simp
  from Cons.IH [OF r, of "acc @ [v]"] obtain arr w2 where
    f: "fallback_loop net cfg rnd (map p_text ps) (acc @ [v]) (store now (p_key p) (Str v) w1)
          = (Inr ((acc @ [v]) @ arr), w2)"
    and l: "length arr = length ps"
    and o: "outs' = assign ps (map Str arr) (outs[p_idx p := Str v])"
    and wr: "writes w' = writes (store now (p_key p) (Str v) w1) @ zip (map p_key ps) (map Str arr)"
    and rq: "requests w' = requests w2" and ns: "net_state w' = net_state w2"
    by blast
  obtain r0 w20 where f0: "fallback_loop net cfg rnd (map p_text ps) (acc @ [v]) w1 = (r0, w20)"
    by (cases "fallback_loop net cfg rnd (map p_text ps) (acc @ [v]) w1")
  have "fallback_loop net cfg rnd (map p_text ps) (acc @ [v]) (store now (p_key p) (Str v) w1)
      = apsnd (store now (p_key p) (Str v)) (fallback_loop net cfg rnd (map p_text ps) (acc @ [v]) w1)"
    by (rule fallback_loop_comm) (rule store_passive)
  with f f0 have r0: "r0 = Inr ((acc @ [v]) @ arr)" and w2: "w2 = store now (p_key p) (Str v) w20"
    by simp_all
  have "fallback_loop net cfg rnd (map p_text (p # ps)) acc w = (Inr (acc @ (v # arr)), w20)"
    using s f0 r0 by simp
  moreover have "length (v # arr) = length (p # ps)" using l by simp
  moreover have "outs' = assign (p # ps) (map Str (v # arr)) outs" using o by simp
  moreover have "writes w' = writes w @ zip (map p_key (p # ps)) (map Str (v # arr))"
    using wr w1 by (simp add: store_log)
  moreover have "requests w' = requests w20" using rq w2 by (simp add: store_log)
  moreover have "net_state w' = net_state w20" using ns w2 by (simp add: store_fields)
  ultimately show ?case by blast
qed

lemma zip_map_upt:
  "zip (map h ps) (map g [0..<length ps]) = map (\<lambda>j. (h (ps ! j), g j)) [0..<length ps]"
  by (rule nth_equalityI) simp_all

lemma map_Str_upt:
  "map Str arr = map (\<lambda>j. Str (if j < length arr then arr ! j else [])) [0..<length arr]"
  by (rule nth_equalityI) simp_all

lemma translate_result:
  assumes run: "translateTextsV2 lc net cfg now rnd texts w = (Inr outs, w')"
    and pe: "pe = pending_entries lc cfg now (cache w) texts"
  shows "length outs = length texts
       \<and> (pe = [] \<longrightarrow> requests w' = requests w \<and> writes w' = writes w)
       \<and> (pe \<noteq> [] \<longrightarrow>
            (\<exists>arr w2 new. provider_calls net cfg rnd (map p_text pe) w = (Inr arr, w2)
               \<and> requests w2 = requests w @ new \<and> provider_trace cfg (map p_text pe) new
               \<and> requests w' = requests w2 \<and> net_state w' = net_state w2
               \<and> (\<forall>j<length pe. outs ! p_idx (pe ! j) = Str (if j < length arr then arr ! j else []))
               \<and> writes w' = writes w
                    @ map (\<lambda>j. (p_key (pe ! j), Str (if j < length arr then arr ! j else [])))
                        [0..<length pe]))"
proof -
  obtain outs0 pend c1 where sc:
    "scan lc cfg now texts 0 (replicate (length texts) Undefined, [], cache w) = (outs0, pend, c1)"
    by (cases "scan lc cfg now texts 0 (replicate (length texts) Undefined, [], cache w)") auto
  from scan_pending_entries [OF sc] pe have pend: "pend = pe" and l0: "length outs0 = length texts"
    by simp_all
  define f :: "'a world \<Rightarrow> 'a world" where "f = (\<lambda>v. v\<lparr>cache := c1\<rparr>)"
  have fp: "f (v\<lparr>net_state := n, requests := r\<rparr>) = (f v)\<lparr>net_state := n, requests := r\<rparr>" for v n r
    by (simp add: f_def)
  have ff: "writes (f v) = writes v" "requests (f v) = requests v" "net_state (f v) = net_state v" for v
    by (simp_all add: f_def)
  have idx: "distinct (map p_idx pe)" "\<forall>p\<in>set pe. p_idx p < length outs0"
    using pending_entries_idx [of lc cfg now "cache w" texts] l0 pe by simp_all
  note run' = run [unfolded translateTextsV2_def sc, simplified, folded f_def, unfolded pend]
  have fin: "length outs = length texts
       \<and> (\<exists>arr w2 new. provider_calls net cfg rnd (map p_text pe) w = (Inr arr, w2)
               \<and> requests w2 = requests w @ new \<and> provider_trace cfg (map p_text pe) new
               \<and> requests w' = requests w2 \<and> net_state w' = net_state w2
               \<and> (\<forall>j<length pe. outs ! p_idx (pe ! j) = Str (if j < length arr then arr ! j else []))
               \<and> writes w' = writes w
                    @ map (\<lambda>j. (p_key (pe ! j), Str (if j < length arr then arr ! j else [])))
                        [0..<length pe])"
    if pc: "provider_calls net cfg rnd (map p_text pe) (f w) = (Inr arr, v2)"
      and o: "outs = assign pe (map (\<lambda>j. Str (if j < length arr then arr ! j else [])) [0..<length pe]) outs0"
      and wr: "writes w' = writes v2 @ zip (map p_key pe)
                  (map (\<lambda>j. Str (if j < length arr then arr ! j else [])) [0..<length pe])"
      and rq: "requests w' = requests v2" and ns: "net_state w' = net_state v2"
    for arr v2
  proof -
    obtain r w2 where p0: "provider_calls net cfg rnd (map p_text pe) w = (r, w2)"
      by (cases "provider_calls net cfg rnd (map p_text pe) w")
    have "provider_calls net cfg rnd (map p_text pe) (f w)
        = apsnd f (provider_calls net cfg rnd (map p_text pe) w)"
      by (rule provider_calls_comm) (rule fp)
    with pc p0 have r: "r = Inr arr" and v2: "v2 = f w2" by simp_all
    note p1 = p0 [unfolded r]
    from provider_calls_trace [OF p1] obtain new where
      w2: "writes w2 = writes w" "requests w2 = requests w @ new"
      "provider_trace cfg (map p_text pe) new" by blast
    have 1: "length outs = length texts" using o l0 by (simp add: assign_length)
    have 2: "requests w' = requests w2" "net_state w' = net_state w2"
      using rq ns v2 by (simp_all add: ff)
    have 3: "\<forall>j<length pe. outs ! p_idx (pe ! j) = Str (if j < length arr then arr ! j else [])"
    proof (intro allI impI)
      fix j assume j: "j < length pe"
      have "assign pe (map (\<lambda>j. Str (if j < length arr then arr ! j else [])) [0..<length pe]) outs0
              ! p_idx (pe ! j)
          = map (\<lambda>j. Str (if j < length arr then arr ! j else [])) [0..<length pe] ! j"
        using idx j by (intro assign_nth) simp_all
      then show "outs ! p_idx (pe ! j) = Str (if j < length arr then arr ! j else [])"
        using j o by simp
    qed
    have 4: "writes w' = writes w
        @ map (\<lambda>j. (p_key (pe ! j), Str (if j < length arr then arr ! j else []))) [0..<length pe]"
      using wr v2 w2(1) by (simp add: ff zip_map_upt)
    from p1 w2(2,3) 1 2 3 4 show ?thesis by blast
  qed
  show ?thesis
  proof (cases "pe = []")
    case True
    with run' have "outs = outs0" "w' = f w" by simp_all
    with True l0 show ?thesis by (simp add: ff)
  next
    case ne: False
    have "length outs = length texts
       \<and> (\<exists>arr w2 new. provider_calls net cfg rnd (map p_text pe) w = (Inr arr, w2)
               \<and> requests w2 = requests w @ new \<and> provider_trace cfg (map p_text pe) new
               \<and> requests w' = requests w2 \<and> net_state w' = net_state w2
               \<and> (\<forall>j<length pe. outs ! p_idx (pe ! j) = Str (if j < length arr then arr ! j else []))
               \<and> writes w' = writes w
                    @ map (\<lambda>j. (p_key (pe ! j), Str (if j < length arr then arr ! j else [])))
                        [0..<length pe])"
    proof (cases "providerType cfg = js ''openai-compatible''")
      case oa: True
      show ?thesis
      proof (cases "batching_enabled cfg")
        case True
        from run' ne oa True obtain flat v2 where
          b: "batch_loop net cfg rnd (splitInputsByBudget (map p_text pe) (batching cfg)) [] (f w)
                = (Inr flat, v2)"
          and m: "map_back now flat 0 pe (outs0, v2) = (outs, w')"
          by (auto simp: Let_def split: prod.splits sum.splits)
        have pc: "provider_calls net cfg rnd (map p_text pe) (f w) = (Inr flat, v2)"
          using b oa True by (simp add: provider_calls_def)
        from map_back_result [OF m] map_back_net [OF m] show ?thesis
          by (intro fin [OF pc]) simp_all
      next
        case False
        from run' ne oa False have "item_loop net cfg now rnd pe (outs0, f w) = (Inr outs, w')"
          by simp
        from item_loop_calls [OF this, of "[]"] obtain arr v2 where
          fl: "fallback_loop net cfg rnd (map p_text pe) [] (f w) = (Inr arr, v2)"
          and l: "length arr = length pe"
          and o: "outs = assign pe (map Str arr) outs0"
          and wr: "writes w' = writes (f w) @ zip (map p_key pe) (map Str arr)"
          and rq: "requests w' = requests v2" and ns: "net_state w' = net_state v2"
          by auto
        have pc: "provider_calls net cfg rnd (map p_text pe) (f w) = (Inr arr, v2)"
          using fl oa False by (simp add: provider_calls_def)
        have v2w: "writes v2 = writes (f w)" using fallback_loop_log [OF fl] by simp
        have ms: "map Str arr = map (\<lambda>j. Str (if j < length arr then arr ! j else [])) [0..<length pe]"
          using map_Str_upt [of arr] l by simp
        show ?thesis
          using o wr rq ns v2w unfolding ms by (intro fin [OF pc]) simp_all
      qed
    next
      case cu: False
      from run' ne cu obtain arr v2 where
        c: "customTranslateBatch net cfg (map p_text pe) rnd (f w) = (Inr arr, v2)"
        and m: "map_back now arr 0 pe (outs0, v2) = (outs, w')"
        by (auto simp: Let_def split: prod.splits sum.splits)
      have pc: "provider_calls net cfg rnd (map p_text pe) (f w) = (Inr arr, v2)"
        using c cu by (simp add: provider_calls_def)
      from map_back_result [OF m] map_back_net [OF m] show ?thesis
        by (intro fin [OF pc]) simp_all
    qed
    with ne show ?thesis by simp
  qed
qed

lemma filter_upt_nth:
  assumes "i < n" "P i"
  shows "length (filter P [0..<i]) < length (filter P [0..<n])
       \<and> filter P [0..<n] ! length (filter P [0..<i]) = i"
proof -
  have "[0..<n] = [0..<i] @ i # [Suc i..<n]"
    using assms(1) by (metis le_add1 less_imp_add_positive upt_add_eq_append upt_conv_Cons
        add.commute add_0 less_or_eq_imp_le)
  then have "filter P [0..<n] = filter P [0..<i] @ i # filter P [Suc i..<n]"
    using assms(2) by simp
  then show ?thesis by (simp add: nth_append)
qed

lemma filter_upt_mono:
  assumes "i < j" "P i"
  shows "length (filter P [0..<i]) < length (filter P [0..<j])"
  using filter_upt_nth [of i j P, OF assms] by simp

lemma pending_entries_dup:
  assumes "i < j" "j < length texts" "texts ! i = texts ! j" "miss lc cfg now c (texts ! i)"
  shows "\<exists>a b. a < b \<and> b < length (pending_entries lc cfg now c texts)
       \<and> p_idx (pending_entries lc cfg now c texts ! a) = i
       \<and> p_idx (pending_entries lc cfg now c texts ! b) = j
       \<and> p_text (pending_entries lc cfg now c texts ! a) = texts ! i
       \<and> p_text (pending_entries lc cfg now c texts ! b) = texts ! i
       \<and> p_key (pending_entries lc cfg now c texts ! a) = key_of lc cfg (texts ! i)
       \<and> p_key (pending_entries lc cfg now c texts ! b) = key_of lc cfg (texts ! i)"
proof -
  let ?P = "\<lambda>i. miss lc cfg now c (texts ! i)"
  let ?f = "filter ?P [0..<length texts]"
  define a where "a = length (filter ?P [0..<i])"
  define b where "b = length (filter ?P [0..<j])"
  have Pi: "?P i" and Pj: "?P j" using assms(3,4) by simp_all
  have i: "i < length texts" using assms(1,2) by simp
  from filter_upt_nth [of i "length texts" ?P, OF i Pi]
  have fa: "a < length ?f" "?f ! a = i" by (simp_all add: a_def)
  from filter_upt_nth [of j "length texts" ?P, OF assms(2) Pj]
  have fb: "b < length ?f" "?f ! b = j" by (simp_all add: b_def)
  have ab: "a < b" unfolding a_def b_def using assms(1) Pi by (rule filter_upt_mono)
  show ?thesis
    using fa fb ab assms(3)
    by (intro exI [of _ a] exI [of _ b]) (simp add: pending_entries_def)
qed

section \<open>Claims\<close>

text \<open>
  C8, as the code has it. The delays are integers of milliseconds. For every attempt
  \<open>k \<ge> 1\<close>, every \<open>base \<ge> 0\<close> (with \<open>k \<le> 1024\<close> when \<open>base = 0\<close>) and every finite \<open>max\<close>,
  \<open>computeBackoffDelay(k, base, max, false)\<close> is the number \<open>d = min(base * 2^(k-1), max)\<close>,
  is non-decreasing in \<open>k\<close> and never exceeds \<open>max\<close>. When moreover \<open>max \<ge> 0\<close> and \<open>1.3 * max\<close> is
  below \<open>2^31\<close>, the delay with \<open>jitter = true\<close> is an integer within 30 percent of \<open>d\<close>
  whatever \<open>Math.random()\<close> returns (values in \<open>[0, 1)\<close>); it depends on the draws when
  \<open>d \<ge> 4\<close> (two draws give different delays) and is always \<open>d\<close> when \<open>d \<le> 3\<close>.
\<close>

theorem C8_backoff_delay:
  assumes "1 \<le> k" and "0 \<le> base" and "base = 0 \<longrightarrow> k \<le> 1024" and "mx < 2 ^ 1024"
  shows "computeBackoffDelay k base mx False u1 u2 = Num (min (base * 2 ^ nat (k - 1)) mx)
       \<and> (\<forall>k'. k \<le> k' \<and> (base = 0 \<longrightarrow> k' \<le> 1024) \<longrightarrow>
            js_le (computeBackoffDelay k base mx False u1 u2) (computeBackoffDelay k' base mx False u1 u2))
       \<and> js_le (computeBackoffDelay k base mx False u1 u2) (Num mx)
       \<and> (0 \<le> mx \<and> 13 * mx < 10 * 2 ^ 31 \<longrightarrow>
            (\<forall>v1 v2. 0 \<le> v1 \<and> v1 < 1 \<and> 0 \<le> v2 \<and> v2 < 1 \<longrightarrow>
               (\<exists>r. computeBackoffDelay k base mx True v1 v2 = Num r
                  \<and> 100 * \<bar>r - min (base * 2 ^ nat (k - 1)) mx\<bar> \<le> 30 * min (base * 2 ^ nat (k - 1)) mx))
          \<and> (4 \<le> min (base * 2 ^ nat (k - 1)) mx \<longrightarrow>
               (\<exists>v1 v2 w1 w2. 0 \<le> v1 \<and> v1 < 1 \<and> 0 \<le> v2 \<and> v2 < 1 \<and> 0 \<le> w1 \<and> w1 < 1 \<and> 0 \<le> w2 \<and> w2 < 1
                  \<and> computeBackoffDelay k base mx True v1 v2 \<noteq> computeBackoffDelay k base mx True w1 w2))
          \<and> (min (base * 2 ^ nat (k - 1)) mx \<le> 3 \<longrightarrow>
               (\<forall>v1 v2. 0 \<le> v1 \<and> v1 < 1 \<and> 0 \<le> v2 \<and> v2 < 1 \<longrightarrow>
                  computeBackoffDelay k base mx True v1 v2 = Num (min (base * 2 ^ nat (k - 1)) mx))))"
proof -
  let ?d = "min (base * 2 ^ nat (k - 1)) mx"
  note plain = backoff_plain [OF assms]
  note jit = backoff_jitter [OF assms, unfolded Let_def]
  have A: "computeBackoffDelay k base mx False u1 u2 = Num ?d" by (rule plain)
  have B: "\<forall>k'. k \<le> k' \<and> (base = 0 \<longrightarrow> k' \<le> 1024) \<longrightarrow>
      js_le (computeBackoffDelay k base mx False u1 u2) (computeBackoffDelay k' base mx False u1 u2)"
  proof (intro allI impI)
    fix k' assume k': "k \<le> k' \<and> (base = 0 \<longrightarrow> k' \<le> 1024)"
    then have "1 \<le> k'" using assms(1) by simp
    from backoff_plain [OF this assms(2) _ assms(4)] k'
    have "computeBackoffDelay k' base mx False u1 u2 = Num (min (base * 2 ^ nat (k' - 1)) mx)"
      by simp
    then show "js_le (computeBackoffDelay k base mx False u1 u2)
        (computeBackoffDelay k' base mx False u1 u2)"
      unfolding A using backoff_mono [OF assms(1) _ assms(2), of k' mx] k' by simp
  qed
  have C: "js_le (computeBackoffDelay k base mx False u1 u2) (Num mx)" unfolding A by simp
  have D: "0 \<le> mx \<and> 13 * mx < 10 * 2 ^ 31 \<longrightarrow>
      (\<forall>v1 v2. 0 \<le> v1 \<and> v1 < 1 \<and> 0 \<le> v2 \<and> v2 < 1 \<longrightarrow>
         (\<exists>r. computeBackoffDelay k base mx True v1 v2 = Num r \<and> 100 * \<bar>r - ?d\<bar> \<le> 30 * ?d))
    \<and> (4 \<le> ?d \<longrightarrow>
         (\<exists>v1 v2 w1 w2. 0 \<le> v1 \<and> v1 < 1 \<and> 0 \<le> v2 \<and> v2 < 1 \<and> 0 \<le> w1 \<and> w1 < 1 \<and> 0 \<le> w2 \<and> w2 < 1
            \<and> computeBackoffDelay k base mx True v1 v2 \<noteq> computeBackoffDelay k base mx True w1 w2))
    \<and> (?d \<le> 3 \<longrightarrow>
         (\<forall>v1 v2. 0 \<le> v1 \<and> v1 < 1 \<and> 0 \<le> v2 \<and> v2 < 1 \<longrightarrow>
            computeBackoffDelay k base mx True v1 v2 = Num ?d))"
  proof (intro impI)
    assume mx: "0 \<le> mx \<and> 13 * mx < 10 * 2 ^ 31"
    have d0: "0 \<le> ?d" using assms(2) mx by simp
    have "?d \<le> mx" by simp
    then have d31: "13 * ?d < 10 * 2 ^ 31" using mx by linarith
    have D1: "\<forall>v1 v2. 0 \<le> v1 \<and> v1 < 1 \<and> 0 \<le> v2 \<and> v2 < 1 \<longrightarrow>
         (\<exists>r. computeBackoffDelay k base mx True v1 v2 = Num r \<and> 100 * \<bar>r - ?d\<bar> \<le> 30 * ?d)"
      unfolding jit using backoff_jitter_range [OF _ _ _ _ d0 d31] by blast
    have D2: "4 \<le> ?d \<longrightarrow>
         (\<exists>v1 v2 w1 w2. 0 \<le> v1 \<and> v1 < 1 \<and> 0 \<le> v2 \<and> v2 < 1 \<and> 0 \<le> w1 \<and> w1 < 1 \<and> 0 \<le> w2 \<and> w2 < 1
            \<and> computeBackoffDelay k base mx True v1 v2 \<noteq> computeBackoffDelay k base mx True w1 w2)"
    proof
      assume "4 \<le> ?d"
      from backoff_jitter_varies [OF this d31]
      have ne: "computeBackoffDelay k base mx True (20 / 21) 0
           \<noteq> computeBackoffDelay k base mx True (20 / 21) (1 / 2)"
        unfolding jit by simp
      show "\<exists>v1 v2 w1 w2. 0 \<le> v1 \<and> v1 < 1 \<and> 0 \<le> v2 \<and> v2 < 1 \<and> 0 \<le> w1 \<and> w1 < 1 \<and> 0 \<le> w2 \<and> w2 < 1
           \<and> computeBackoffDelay k base mx True v1 v2 \<noteq> computeBackoffDelay k base mx True w1 w2"
        apply (rule exI [of _ "20 / 21"], rule exI [of _ 0])
        apply (rule exI [of _ "20 / 21"], rule exI [of _ "1 / 2"])
        using ne by simp
    qed
    have D3: "?d \<le> 3 \<longrightarrow>
         (\<forall>v1 v2. 0 \<le> v1 \<and> v1 < 1 \<and> 0 \<le> v2 \<and> v2 < 1 \<longrightarrow>
            computeBackoffDelay k base mx True v1 v2 = Num ?d)"
      unfolding jit using backoff_jitter_fixed [OF _ _ _ _ d0] by blast
    from D1 D2 D3 show "(\<forall>v1 v2. 0 \<le> v1 \<and> v1 < 1 \<and> 0 \<le> v2 \<and> v2 < 1 \<longrightarrow>
         (\<exists>r. computeBackoffDelay k base mx True v1 v2 = Num r \<and> 100 * \<bar>r - ?d\<bar> \<le> 30 * ?d))
      \<and> (4 \<le> ?d \<longrightarrow>
         (\<exists>v1 v2 w1 w2. 0 \<le> v1 \<and> v1 < 1 \<and> 0 \<le> v2 \<and> v2 < 1 \<and> 0 \<le> w1 \<and> w1 < 1 \<and> 0 \<le> w2 \<and> w2 < 1
            \<and> computeBackoffDelay k base mx True v1 v2 \<noteq> computeBackoffDelay k base mx True w1 w2))
      \<and> (?d \<le> 3 \<longrightarrow>
         (\<forall>v1 v2. 0 \<le> v1 \<and> v1 < 1 \<and> 0 \<le> v2 \<and> v2 < 1 \<longrightarrow>
            computeBackoffDelay k base mx True v1 v2 = Num ?d))" by blast
  qed
  from A B C D show ?thesis by blast
qed

theorem C8_backoff_delay_witness:
  "computeBackoffDelay 3 800 20000 False 0 0 = Num 3200
 \<and> js_le (computeBackoffDelay 3 800 20000 False 0 0) (computeBackoffDelay 7 800 20000 False 0 0)
 \<and> js_le (computeBackoffDelay 3 800 20000 False 0 0) (Num 20000)
 \<and> (\<exists>r. computeBackoffDelay 3 800 20000 True (1 / 2) (1 / 3) = Num r \<and> 100 * \<bar>r - 3200\<bar> \<le> 30 * 3200)
 \<and> (\<exists>v1 v2 w1 w2. computeBackoffDelay 3 800 20000 True v1 v2 \<noteq> computeBackoffDelay 3 800 20000 True w1 w2)
 \<and> computeBackoffDelay 1 3 20000 True (1 / 2) (1 / 3) = Num 3"
proof -
  have prem: "(1::int) \<le> 3" "(0::int) \<le> 800" "(800::int) = 0 \<longrightarrow> (3::int) \<le> 1024"
    "(20000::int) < 2 ^ 1024"
    by simp_all
  have prem3: "(1::int) \<le> 1" "(0::int) \<le> 3" "(3::int) = 0 \<longrightarrow> (1::int) \<le> 1024"
    "(20000::int) < 2 ^ 1024"
    by simp_all
  have mx: "(0::int) \<le> 20000 \<and> 13 * (20000::int) < 10 * 2 ^ 31" by simp
  note c = C8_backoff_delay [OF prem, of 0 0]
  note c3 = C8_backoff_delay [OF prem3, of 0 0]
  note j = c [THEN conjunct2, THEN conjunct2, THEN conjunct2, rule_format, OF mx]
  note j3 = c3 [THEN conjunct2, THEN conjunct2, THEN conjunct2, rule_format, OF mx]
  have m: "min (800 * 2 ^ nat (3 - 1)) (20000::int) = 3200" by simp
  have m3: "min (3 * 2 ^ nat (1 - 1)) (20000::int) = 3" by simp
  have "computeBackoffDelay 3 800 20000 False 0 0 = Num 3200"
    using c [THEN conjunct1] unfolding m .
  moreover have "js_le (computeBackoffDelay 3 800 20000 False 0 0) (computeBackoffDelay 7 800 20000 False 0 0)"
    using c [THEN conjunct2, THEN conjunct1, rule_format, of 7] by simp
  moreover have "js_le (computeBackoffDelay 3 800 20000 False 0 0) (Num 20000)"
    using c [THEN conjunct2, THEN conjunct2, THEN conjunct1] .
  moreover have "\<exists>r. computeBackoffDelay 3 800 20000 True (1 / 2) (1 / 3) = Num r
      \<and> 100 * \<bar>r - 3200\<bar> \<le> 30 * 3200"
    using j [THEN conjunct1, rule_format, of "1 / 2" "1 / 3"] unfolding m by simp
  moreover have "\<exists>v1 v2 w1 w2.
      computeBackoffDelay 3 800 20000 True v1 v2 \<noteq> computeBackoffDelay 3 800 20000 True w1 w2"
    using j [THEN conjunct2, THEN conjunct1] unfolding m by simp blast
  moreover have "computeBackoffDelay 1 3 20000 True (1 / 2) (1 / 3) = Num 3"
    using j3 [THEN conjunct2, THEN conjunct2, rule_format, of "1 / 2" "1 / 3"] unfolding m3 by simp
  ultimately show ?thesis by blast
qed

text \<open>
  C8 as stated fails outside these bounds. With \<open>max = 3000000000\<close> the jittered delay of
  attempt 40 is negative, since \<open>| 0\<close> in \<open>randBetween\<close> wraps to 32 bits, and so is not within
  30 percent of the unjittered \<open>3000000000\<close>; with \<open>base = 0\<close> attempt 1025 gives \<open>NaN\<close>
  (\<open>0 * Infinity\<close>), which is not \<open>min(base * 2^(k-1), max) = 0\<close>; with a negative base the
  delay decreases with the attempt; and with an unjittered delay of 3 the jittered delay
  is 3 for the draws tried, so it does not vary.
\<close>

theorem C8_counterexample:
  "computeBackoffDelay 40 800 3000000000 False 0 0 = Num 3000000000
 \<and> computeBackoffDelay 40 800 3000000000 True (1 / 2) (1 / 2) = Num (- 1294967296)
 \<and> computeBackoffDelay 1025 0 20000 False 0 0 = NaN
 \<and> computeBackoffDelay 1 (- 5) 100 False 0 0 = Num (- 5)
 \<and> computeBackoffDelay 2 (- 5) 100 False 0 0 = Num (- 10)
 \<and> computeBackoffDelay 1 3 20000 False 0 0 = Num 3
 \<and> computeBackoffDelay 1 3 20000 True 0 0 = Num 3
 \<and> computeBackoffDelay 1 3 20000 True (20 / 21) (1 / 2) = Num 3
 \<and> computeBackoffDelay 1 3 20000 True (20 / 21) (20 / 21) = Num 3"
  by code_simp

text \<open>
  C5, as the code has it. The default classifier of \<open>withRetry\<close> (no \<open>isRetriable\<close> option):
  an error is retriable iff it is a network error (its name is \<open>TypeError\<close>, or its text
  matches \<open>NetworkError|Failed to fetch|net::ERR\<close> up to case) or its extracted status (the
  numeric status field, else the code read from the message, else 0) is in \<open>retryOn\<close>.
  So an error carrying a numeric status that is not a network error is retriable iff the
  status is in \<open>retryOn\<close>; an error with no status, no code in its message and no network
  text is retriable only if 0 is in \<open>retryOn\<close>; and the cancellation error \<open>AbortError\<close>
  (message \<open>Aborted\<close>) is not retriable as long as 0 is not in \<open>retryOn\<close>.
\<close>

theorem C5_default_classifier:
  assumes "isRetriable opts = None"
  shows "(retriable opts e k \<longleftrightarrow> isNetworkError e \<or> extractStatus e \<in> set (retryOn opts))
       \<and> (\<forall>st. e_status e = Some st \<and> \<not> isNetworkError e \<longrightarrow>
             (retriable opts e k \<longleftrightarrow> st \<in> set (retryOn opts)))
       \<and> (e_status e = None \<and> \<not> isNetworkError e \<and> http_search False (e_message e) = None \<longrightarrow>
             (retriable opts e k \<longleftrightarrow> 0 \<in> set (retryOn opts)))
       \<and> (0 \<notin> set (retryOn opts) \<longrightarrow> \<not> retriable opts AbortError k)"
  using assms AbortError_plain
  by (auto simp: retriable_def extractStatus_def)

theorem C5_default_classifier_witness:
  "retriable (default_retry_opts :: unit retry_opts) (ErrorWithStatus (js ''HTTP 503: busy'') 503) 0
 \<and> \<not> retriable (default_retry_opts :: unit retry_opts) (ErrorWithStatus (js ''HTTP 404: gone'') 404) 0
 \<and> \<not> retriable (default_retry_opts :: unit retry_opts) (Error (js ''boom'')) 0
 \<and> \<not> retriable (default_retry_opts :: unit retry_opts) AbortError 0"
proof -
  have n: "isRetriable (default_retry_opts :: unit retry_opts) = None"
    by (simp add: default_retry_opts_def)
  have r: "retryOn (default_retry_opts :: unit retry_opts) = [429, 500, 502, 503, 504]"
    by (simp add: default_retry_opts_def)
  have a: "\<not> isNetworkError (ErrorWithStatus (js ''HTTP 503: busy'') 503)"
          "\<not> isNetworkError (ErrorWithStatus (js ''HTTP 404: gone'') 404)"
          "\<not> isNetworkError (Error (js ''boom''))"
    by (simp_all add: isNetworkError_def ErrorWithStatus_def Error_def error_text_def js_def upper_def)
  have b: "http_search False (e_message (Error (js ''boom''))) = None"
    by (simp add: Error_def js_def http_here_def)
  have s: "e_status (ErrorWithStatus (js ''HTTP 503: busy'') 503) = Some 503"
          "e_status (ErrorWithStatus (js ''HTTP 404: gone'') 404) = Some 404"
          "e_status (Error (js ''boom'')) = None"
    by (simp_all add: ErrorWithStatus_def Error_def)
  note c = C5_default_classifier [OF n]
  have "retriable (default_retry_opts :: unit retry_opts) (ErrorWithStatus (js ''HTTP 503: busy'') 503) 0"
    using c [of "ErrorWithStatus (js ''HTTP 503: busy'') 503" 0, THEN conjunct2, THEN conjunct1,
        rule_format, of 503] a s
    by (simp add: r)
  moreover have "\<not> retriable (default_retry_opts :: unit retry_opts) (ErrorWithStatus (js ''HTTP 404: gone'') 404) 0"
    using c [of "ErrorWithStatus (js ''HTTP 404: gone'') 404" 0, THEN conjunct2, THEN conjunct1,
        rule_format, of 404] a s
    by (simp add: r)
  moreover have "\<not> retriable (default_retry_opts :: unit retry_opts) (Error (js ''boom'')) 0"
    using c [of "Error (js ''boom'')" 0, THEN conjunct2, THEN conjunct2, THEN conjunct1] a b s
    by (simp add: r)
  moreover have "\<not> retriable (default_retry_opts :: unit retry_opts) AbortError 0"
    using c [of undefined 0, THEN conjunct2, THEN conjunct2, THEN conjunct2]
    by (simp add: r)
  ultimately show ?thesis by blast
qed

text \<open>
  C5 as stated fails: an error with status 404 whose text reads \<open>Failed to fetch\<close> is
  retriable although 404 is not in \<open>retryOn\<close>; the parse failure of the batch call, an error
  with no status, is not retriable; and an \<open>AbortError\<close> whose message reads
  \<open>Failed to fetch\<close> is retriable.
\<close>

theorem C5_counterexample:
  "e_status (ErrorWithStatus (js ''HTTP 404: Failed to fetch upstream'') 404) = Some 404
 \<and> 404 \<notin> set (retryOn (default_retry_opts :: unit retry_opts))
 \<and> retriable (default_retry_opts :: unit retry_opts) (ErrorWithStatus (js ''HTTP 404: Failed to fetch upstream'') 404) 0
 \<and> e_status (Error (js ''Invalid JSON array from provider'')) = None
 \<and> \<not> retriable (default_retry_opts :: unit retry_opts) (Error (js ''Invalid JSON array from provider'')) 0
 \<and> retriable (default_retry_opts :: unit retry_opts) (AbortError\<lparr>e_message := js ''Failed to fetch: aborted''\<rparr>) 0"
  by code_simp

text \<open>
  C10, as the code has it. For an error object with no numeric status, \<open>extractStatus\<close> reads
  the status from the leftmost match of \<open>/\bHTTP\s+(\d{3})\b/\<close> in the message: the letters
  \<open>HTTP\<close> not preceded by a word character, then white space, then exactly three digits not
  followed by a word character; it is the number these digits write, and 0 when the
  expression matches nowhere. In the default classification such an error is classified
  exactly as if it carried that status, and when it is not a network error it is retriable
  iff the status read is in \<open>retryOn\<close>.
\<close>

theorem C10_status_from_message:
  assumes "e_status e = None"
  shows "(\<forall>i j. first_http (e_message e) i j \<longrightarrow> extractStatus e = code_at (e_message e) j)
       \<and> (no_http_before (e_message e) (length (e_message e)) \<longrightarrow> extractStatus e = 0)
       \<and> (isRetriable opts = None \<longrightarrow>
            (\<forall>i j. first_http (e_message e) i j \<longrightarrow>
               retriable opts e k = retriable opts (e\<lparr>e_status := Some (code_at (e_message e) j)\<rparr>) k)
          \<and> (\<not> isNetworkError e \<longrightarrow> retriable opts e k = (extractStatus e \<in> set (retryOn opts))))"
proof -
  have A: "\<forall>i j. first_http (e_message e) i j \<longrightarrow> extractStatus e = code_at (e_message e) j"
    using assms by (simp add: extractStatus_def http_search_first)
  have B: "no_http_before (e_message e) (length (e_message e)) \<longrightarrow> extractStatus e = 0"
    using assms by (simp add: extractStatus_def http_search_nowhere)
  have C: "isRetriable opts = None \<longrightarrow>
      (\<forall>i j. first_http (e_message e) i j \<longrightarrow>
         retriable opts e k = retriable opts (e\<lparr>e_status := Some (code_at (e_message e) j)\<rparr>) k)
    \<and> (\<not> isNetworkError e \<longrightarrow> retriable opts e k = (extractStatus e \<in> set (retryOn opts)))"
  proof
    assume n: "isRetriable opts = None"
    have C1: "\<forall>i j. first_http (e_message e) i j \<longrightarrow>
         retriable opts e k = retriable opts (e\<lparr>e_status := Some (code_at (e_message e) j)\<rparr>) k"
    proof (intro allI impI)
      fix i j assume "first_http (e_message e) i j"
      with A have x: "extractStatus e = code_at (e_message e) j" by blast
      have "extractStatus (e\<lparr>e_status := Some (code_at (e_message e) j)\<rparr>) = extractStatus e"
        unfolding x [symmetric] by (rule extractStatus_update)
      then show "retriable opts e k
          = retriable opts (e\<lparr>e_status := Some (code_at (e_message e) j)\<rparr>) k"
        using n by (simp add: retriable_def isNetworkError_update)
    qed
    have C2: "\<not> isNetworkError e \<longrightarrow> retriable opts e k = (extractStatus e \<in> set (retryOn opts))"
      using n by (simp add: retriable_def)
    from C1 C2 show "(\<forall>i j. first_http (e_message e) i j \<longrightarrow>
         retriable opts e k = retriable opts (e\<lparr>e_status := Some (code_at (e_message e) j)\<rparr>) k)
      \<and> (\<not> isNetworkError e \<longrightarrow> retriable opts e k = (extractStatus e \<in> set (retryOn opts)))"
      by (rule conjI)
  qed
  from A B C show ?thesis by (intro conjI)
qed

theorem C10_status_from_message_witness:
  "first_http (js ''Hello HTTP 503'') 6 11
 \<and> extractStatus (Error (js ''Hello HTTP 503'')) = 503
 \<and> retriable (default_retry_opts :: unit retry_opts) (Error (js ''Hello HTTP 503'')) 0
 \<and> retriable (default_retry_opts :: unit retry_opts) (ErrorWithStatus (js ''Hello HTTP 503'') 503) 0
 \<and> extractStatus (Error (js ''HTTP 404'')) = 404
 \<and> \<not> retriable (default_retry_opts :: unit retry_opts) (Error (js ''HTTP 404'')) 0
 \<and> no_http_before (js ''status 503'') 10
 \<and> extractStatus (Error (js ''status 503'')) = 0"
proof -
  let ?e = "Error (js ''Hello HTTP 503'')"
  let ?f = "Error (js ''HTTP 404'')"
  let ?g = "Error (js ''status 503'')"
  let ?o = "default_retry_opts :: unit retry_opts"
  have n: "isRetriable ?o = None" by (simp add: default_retry_opts_def)
  have on: "retryOn ?o = [429, 500, 502, 503, 504]" by (simp add: default_retry_opts_def)
  have s: "e_status ?e = None" "e_status ?f = None" "e_status ?g = None" by (simp_all add: Error_def)
  have m: "e_message ?e = js ''Hello HTTP 503''" "e_message ?f = js ''HTTP 404''"
    "e_message ?g = js ''status 503''" by (simp_all add: Error_def)
  note c = C10_status_from_message [OF s(1), of ?o 0, unfolded m]
  note d = C10_status_from_message [OF s(2), of ?o 0, unfolded m]
  note g = C10_status_from_message [OF s(3), of ?o 0, unfolded m]
  have fe: "first_http (js ''Hello HTTP 503'') 6 11" by code_simp
  have ce: "code_at (js ''Hello HTTP 503'') 11 = 503" by code_simp
  have ff: "first_http (js ''HTTP 404'') 0 5" by code_simp
  have cf: "code_at (js ''HTTP 404'') 5 = 404" by code_simp
  have ng: "no_http_before (js ''status 503'') 10" by code_simp
  have lg: "length (js ''status 503'') = 10" by (simp add: js_def)
  have ne: "\<not> isNetworkError ?e" "\<not> isNetworkError ?f" by code_simp+
  have upd: "?e\<lparr>e_status := Some 503\<rparr> = ErrorWithStatus (js ''Hello HTTP 503'') 503"
    by (simp add: Error_def ErrorWithStatus_def)
  have e503: "extractStatus ?e = 503"
    using c [THEN conjunct1, rule_format, OF fe] ce by simp
  have re: "retriable ?o ?e 0"
    using c [THEN conjunct2, THEN conjunct2, rule_format, OF n, THEN conjunct2, rule_format, OF ne(1)]
    by (simp add: e503 on)
  have same: "retriable ?o ?e 0 = retriable ?o (ErrorWithStatus (js ''Hello HTTP 503'') 503) 0"
    using c [THEN conjunct2, THEN conjunct2, rule_format, OF n, THEN conjunct1, rule_format, OF fe]
    unfolding ce upd .
  have f404: "extractStatus ?f = 404"
    using d [THEN conjunct1, rule_format, OF ff] cf by simp
  have rf: "\<not> retriable ?o ?f 0"
    using d [THEN conjunct2, THEN conjunct2, rule_format, OF n, THEN conjunct2, rule_format, OF ne(2)]
    by (simp add: f404 on)
  have g0: "extractStatus ?g = 0"
    using g [THEN conjunct2, THEN conjunct1] ng lg by simp
  from fe e503 re same f404 rf ng g0 show ?thesis by blast
qed

text \<open>
  C10 as stated fails: a message can contain \<open>HTTP 503\<close> without being classified as status
  503. In \<open>HTTP 404 then HTTP 503\<close> the leftmost match is \<open>HTTP 404\<close>: the status read is 404
  and the error is not retriable by default, while the same error carrying status 503 is.
  In \<open>XHTTP 503\<close> the letters follow a word character, so nothing matches and the status
  is 0; in \<open>HTTP/1.1 503\<close> no white space follows the letters, and the status is 0 as well.
\<close>

theorem C10_counterexample:
  "drop 14 (js ''HTTP 404 then HTTP 503'') = js ''HTTP 503''
 \<and> extractStatus (Error (js ''HTTP 404 then HTTP 503'')) = 404
 \<and> \<not> retriable (default_retry_opts :: unit retry_opts) (Error (js ''HTTP 404 then HTTP 503'')) 0
 \<and> retriable (default_retry_opts :: unit retry_opts)
      (ErrorWithStatus (js ''HTTP 404 then HTTP 503'') 503) 0
 \<and> drop 1 (js ''XHTTP 503'') = js ''HTTP 503''
 \<and> extractStatus (Error (js ''XHTTP 503'')) = 0
 \<and> \<not> retriable (default_retry_opts :: unit retry_opts) (Error (js ''XHTTP 503'')) 0
 \<and> extractStatus (Error (js ''HTTP/1.1 503'')) = 0"
  by code_simp

text \<open>
  C6. For every list of inputs and budgets, the chunks of \<open>splitInputsByBudget\<close>
  concatenated in order are the input list; every chunk has at least one item; a chunk with
  more than one item exceeds none of the three ceilings (items, characters, estimated tokens);
  and a chunk is closed as soon as its running totals meet or exceed a ceiling: no proper
  non-empty prefix of a returned chunk has reached one.
\<close>

theorem C6_split:
  "concat (splitInputsByBudget inputs b) = inputs
 \<and> (\<forall>c\<in>set (splitInputsByBudget inputs b).
       c \<noteq> []
     \<and> (length c > 1 \<longrightarrow> within_budget b c)
     \<and> (\<forall>n. 0 < n \<and> n < length c \<longrightarrow> below_budget b (take n c)))"
  using split_result [of inputs b] by (simp add: closed_chunk_def)

theorem C6_split_witness:
  "concat (splitInputsByBudget [js ''aa'', js ''bbb'', js ''c'', js ''dddddddddd'']
             \<lparr>maxItems = 2, maxChars = 5, tokenBudget = 100\<rparr>)
     = [js ''aa'', js ''bbb'', js ''c'', js ''dddddddddd'']
 \<and> [js ''aa'', js ''bbb''] \<in> set (splitInputsByBudget [js ''aa'', js ''bbb'', js ''c'', js ''dddddddddd'']
             \<lparr>maxItems = 2, maxChars = 5, tokenBudget = 100\<rparr>)
 \<and> within_budget \<lparr>maxItems = 2, maxChars = 5, tokenBudget = 100\<rparr> [js ''aa'', js ''bbb'']
 \<and> below_budget \<lparr>maxItems = 2, maxChars = 5, tokenBudget = 100\<rparr> (take 1 [js ''aa'', js ''bbb''])"
proof -
  let ?xs = "[js ''aa'', js ''bbb'', js ''c'', js ''dddddddddd'']"
  let ?b = "\<lparr>maxItems = 2, maxChars = 5, tokenBudget = 100\<rparr>"
  have mem: "[js ''aa'', js ''bbb''] \<in> set (splitInputsByBudget ?xs ?b)"
    by (simp add: splitInputsByBudget_def split_step_def flush_def estimateTokens_def js_def)
  note c = C6_split [of ?xs ?b]
  note d = c [THEN conjunct2, rule_format, OF mem]
  have "within_budget ?b [js ''aa'', js ''bbb'']"
    using d [THEN conjunct2, THEN conjunct1] by simp
  moreover have "below_budget ?b (take 1 [js ''aa'', js ''bbb''])"
    using d [THEN conjunct2, THEN conjunct2, rule_format, of 1] by simp
  ultimately show ?thesis using c [THEN conjunct1] mem by blast
qed

text \<open>
  C9 at its failing input: after \<open>set('k', undefined)\<close> on an enabled, empty cache of
  size 500 the entry is stored and has not expired, yet \<open>has('k')\<close> is false (it is true
  for a stored string).
\<close>

theorem C9_has_undefined:
  "map_get (c_map (cache_set (new_LRUCache 500 43200000 True) 0 (js ''k'') Undefined None)) (js ''k'')
     = Some \<lparr>ent_v = Undefined, ent_exp = 43200000\<rparr>
 \<and> \<not> isExpired 1 \<lparr>ent_v = Undefined, ent_exp = 43200000\<rparr>
 \<and> \<not> fst (cache_has (cache_set (new_LRUCache 500 43200000 True) 0 (js ''k'') Undefined None) 1 (js ''k''))
 \<and> fst (cache_has (cache_set (new_LRUCache 500 43200000 True) 0 (js ''k'') (Str (js ''v'')) None) 1 (js ''k''))"
  by code_simp

text \<open>
  C3, as the code has it. A task started while the temporary throttle is active
  (\<open>tempThrottleUntil > now\<close>) sleeps once, for the remaining window clamped to between 50
  and 2000 milliseconds, before its jitter delay and its token; the deadline is not read
  again afterwards. So it waits out the whole remaining window exactly when at most 2000
  milliseconds of it remain.
\<close>

theorem C3_throttle_wait:
  assumes "tempThrottleUntil s > now"
  shows "runOne it now s
           = (emit now (Started (ident it)) (s\<lparr>running := running s + 1\<rparr>),
              Suspended (clamp (tempThrottleUntil s - now) 50 2000) AfterThrottle)
       \<and> clamp (tempThrottleUntil s - now) 50 2000 \<le> 2000
       \<and> (tempThrottleUntil s \<le> now + clamp (tempThrottleUntil s - now) 50 2000
            \<longleftrightarrow> tempThrottleUntil s - now \<le> 2000)
       \<and> (\<forall>k t s' x. resume k it t (s'\<lparr>tempThrottleUntil := x\<rparr>)
             = (case resume k it t s' of (s2, p) \<Rightarrow> (s2\<lparr>tempThrottleUntil := x\<rparr>, p)))"
  using runOne_throttled [OF assms, of it] resume_ignores_throttle assms
  by (auto simp: clamp_def)

theorem C3_throttle_wait_witness:
  "runOne ex_item 0 (throttleTemporarily (createScheduler 2 1 2 (JitterNumber 0) 0) 0 60000)
     = (emit 0 (Started 2) ((throttleTemporarily (createScheduler 2 1 2 (JitterNumber 0) 0) 0 60000)\<lparr>running := 1\<rparr>),
        Suspended 2000 AfterThrottle)
 \<and> runOne ex_item 0 (throttleTemporarily (createScheduler 2 1 2 (JitterNumber 0) 0) 0 1500)
     = (emit 0 (Started 2) ((throttleTemporarily (createScheduler 2 1 2 (JitterNumber 0) 0) 0 1500)\<lparr>running := 1\<rparr>),
        Suspended 1500 AfterThrottle)"
proof -
  let ?s = "throttleTemporarily (createScheduler 2 1 2 (JitterNumber 0) 0) 0 60000"
  let ?t = "throttleTemporarily (createScheduler 2 1 2 (JitterNumber 0) 0) 0 1500"
  have a: "tempThrottleUntil ?s > 0" "tempThrottleUntil ?t > 0"
    by (simp_all add: throttleTemporarily_def createScheduler_def to_int32_def)
  have v: "tempThrottleUntil ?s = 60000" "tempThrottleUntil ?t = 1500" "running ?s = 0" "running ?t = 0"
    by (simp_all add: throttleTemporarily_def createScheduler_def to_int32_def)
  show ?thesis
    using C3_throttle_wait [OF a(1), of ex_item, THEN conjunct1]
      C3_throttle_wait [OF a(2), of ex_item, THEN conjunct1]
    by (simp add: v clamp_def ex_item_def)
qed

text \<open>
  C3 as stated fails: with a throttle of 60000 ms set at time 0 and no jitter, a task enqueued
  at time 0 takes its token at time 2000, long before the deadline 60000.
\<close>

theorem C3_counterexample:
  "tempThrottleUntil (throttleTemporarily (createScheduler 2 1 2 (JitterNumber 0) 0) 0 60000) = 60000
 \<and> map_option (events \<circ> fst)
      (fire (enqueue ex_item 0 (throttleTemporarily (createScheduler 2 1 2 (JitterNumber 0) 0) 0 60000)))
     = Some [(0, Started 2), (2000, TokenTaken 2)]"
  by code_simp

text \<open>
  C4, as the code has it. A task whose cancellation signal has already fired when it is
  started is rejected with \<open>AbortError\<close> (message \<open>Aborted\<close>) without touching the
  rate limiter, but only after the throttle sleep and the jitter sleep: run on its own it
  leaves the scheduler as it was, the bucket included, and is rejected at the start time plus
  both waits. Whenever there is a wait, the task is suspended with \<open>running\<close> incremented:
  it holds a scheduling slot until it is rejected.
\<close>

theorem C4_aborted_task:
  assumes "aborted it now"
  shows "runOne_alone it now s
           = Some (s\<lparr>events := events s @ [(now, Started (ident it)),
                        (now + throttle_wait s now + jitter_wait s it, Rejected (ident it) AbortError)]\<rparr>,
                   now + throttle_wait s now + jitter_wait s it)
       \<and> (tempThrottleUntil s > now \<or> getJitterDelay s (jitter_draw it) \<noteq> 0 \<longrightarrow>
            (\<exists>w k. runOne it now s
               = (emit now (Started (ident it)) (s\<lparr>running := running s + 1\<rparr>), Suspended w k)))"
  using runOne_alone_aborted [OF assms, of s] runOne_holds_slot [where s = s and now = now and it = it]
  by blast

theorem C4_aborted_task_witness:
  "aborted ex_aborted_item 0
 \<and> runOne_alone ex_aborted_item 0 (throttleTemporarily (createScheduler 1 1 2 JitterDefault 0) 0 60000)
     = Some ((throttleTemporarily (createScheduler 1 1 2 JitterDefault 0) 0 60000)
               \<lparr>events := [(0, Started 1), (2125, Rejected 1 AbortError)]\<rparr>, 2125)"
proof -
  let ?s = "throttleTemporarily (createScheduler 1 1 2 JitterDefault 0) 0 60000"
  have a: "aborted ex_aborted_item 0" by (simp add: aborted_def ex_aborted_item_def)
  have tw: "throttle_wait ?s 0 = 2000"
    by (simp add: throttle_wait_def throttleTemporarily_def createScheduler_def to_int32_def clamp_def)
  have jw: "jitter_wait ?s ex_aborted_item = 125"
    by code_simp
  have ev: "events ?s = []" "ident ex_aborted_item = 1"
    by (simp_all add: throttleTemporarily_def createScheduler_def ex_aborted_item_def)
  show ?thesis
    using C4_aborted_task [OF a, of ?s, THEN conjunct1] a
    by (simp add: tw jw ev)
qed

text \<open>
  C4 as stated fails: with one slot, a throttle active and the default jitter, an aborted task
  enqueued at time 0 holds the slot (\<open>running = 1\<close> and the next item stays queued) and is
  rejected only at time 2125, after both sleeps; the next item starts then.
\<close>

theorem C4_counterexample:
  "aborted ex_aborted_item 0
 \<and> maxConcurrent (throttleTemporarily (createScheduler 1 1 2 JitterDefault 0) 0 60000) = 1
 \<and> running (enqueue ex_item 0 (enqueue ex_aborted_item 0
       (throttleTemporarily (createScheduler 1 1 2 JitterDefault 0) 0 60000))) = 1
 \<and> q (enqueue ex_item 0 (enqueue ex_aborted_item 0
       (throttleTemporarily (createScheduler 1 1 2 JitterDefault 0) 0 60000))) = [ex_item]
 \<and> events (enqueue ex_item 0 (enqueue ex_aborted_item 0
       (throttleTemporarily (createScheduler 1 1 2 JitterDefault 0) 0 60000))) = [(0, Started 1)]
 \<and> map_option (events \<circ> fst)
      (Option.bind (fire (enqueue ex_item 0 (enqueue ex_aborted_item 0
          (throttleTemporarily (createScheduler 1 1 2 JitterDefault 0) 0 60000)))) (fire \<circ> fst))
     = Some [(0, Started 1), (2125, Rejected 1 AbortError), (2125, Started 2)]"
  by code_simp

text \<open>
  C2, as the code has it. When the batch call for a chunk fails terminally, the orchestrator
  falls back to single-item calls, one or more per item of the chunk and in order, iff the
  failure is not of the cancellation class (its name is neither \<open>AbortError\<close> nor
  \<open>SchedulerAbortError\<close>): a parse failure does, and so does every other failure, such
  as a status error that is not retried or has used up its retries. Only a cancellation is
  thrown on to the caller.
\<close>

theorem C2_fallback:
  assumes "cfg_apiKey cfg \<noteq> []"
    and "scheduledFetch (batchFetch net texts) (getRetryOpts cfg) rnd w = (Inl e, w1)"
  shows "(cancellation e \<longrightarrow> openaiBatchTranslateArray net cfg texts rnd w = (Inl e, w1))
       \<and> (\<not> cancellation e \<longrightarrow>
            openaiBatchTranslateArray net cfg texts rnd w = fallback_loop net cfg rnd texts [] w1)
       \<and> (\<forall>res w2. fallback_loop net cfg rnd texts [] w1 = (Inr res, w2) \<longrightarrow>
            length res = length texts
            \<and> (\<exists>ks. length ks = length texts \<and> (\<forall>k\<in>set ks. 1 \<le> k)
                  \<and> requests w2
                      = requests w1 @ concat (map2 (\<lambda>t k. replicate k (OpenaiSingle t)) texts ks)))"
proof -
  have A: "cancellation e \<longrightarrow> openaiBatchTranslateArray net cfg texts rnd w = (Inl e, w1)"
    using assms by (simp add: openaiBatchTranslateArray_def cancellation_def)
  have B: "\<not> cancellation e \<longrightarrow>
      openaiBatchTranslateArray net cfg texts rnd w = fallback_loop net cfg rnd texts [] w1"
    using assms by (simp add: openaiBatchTranslateArray_def cancellation_def)
  have C: "\<forall>res w2. fallback_loop net cfg rnd texts [] w1 = (Inr res, w2) \<longrightarrow>
            length res = length texts
            \<and> (\<exists>ks. length ks = length texts \<and> (\<forall>k\<in>set ks. 1 \<le> k)
                  \<and> requests w2
                      = requests w1 @ concat (map2 (\<lambda>t k. replicate k (OpenaiSingle t)) texts ks))"
    using fallback_loop_log [of net cfg rnd texts "[]" w1] by auto
  from A B C show ?thesis by blast
qed

theorem C2_fallback_witness:
  "\<not> cancellation (Error (js ''Invalid JSON array from provider''))
 \<and> openaiBatchTranslateArray bad_json_net ex_openai_cfg [js ''aa'', js ''bb''] ex_rnd ex_world
     = fallback_loop bad_json_net ex_openai_cfg ex_rnd [js ''aa'', js ''bb''] []
         (ex_world\<lparr>requests := replicate 3 (OpenaiBatch [js ''aa'', js ''bb''])\<rparr>)
 \<and> cancellation (AbortError\<lparr>e_message := js ''The user aborted a request.''\<rparr>)
 \<and> openaiBatchTranslateArray abort_net ex_openai_cfg [js ''aa'', js ''bb''] ex_rnd ex_world
     = (Inl (AbortError\<lparr>e_message := js ''The user aborted a request.''\<rparr>),
        ex_world\<lparr>requests := [OpenaiBatch [js ''aa'', js ''bb'']]\<rparr>)"
proof -
  let ?ts = "[js ''aa'', js ''bb'']"
  have k: "cfg_apiKey ex_openai_cfg \<noteq> []" by code_simp
  have p: "scheduledFetch (batchFetch bad_json_net ?ts) (getRetryOpts ex_openai_cfg) ex_rnd ex_world
      = (Inl (Error (js ''Invalid JSON array from provider'')),
         ex_world\<lparr>requests := replicate 3 (OpenaiBatch ?ts)\<rparr>)"
    by code_simp
  have a: "scheduledFetch (batchFetch abort_net ?ts) (getRetryOpts ex_openai_cfg) ex_rnd ex_world
      = (Inl (AbortError\<lparr>e_message := js ''The user aborted a request.''\<rparr>),
         ex_world\<lparr>requests := [OpenaiBatch ?ts]\<rparr>)"
    by code_simp
  have np: "\<not> cancellation (Error (js ''Invalid JSON array from provider''))" by code_simp
  have ca: "cancellation (AbortError\<lparr>e_message := js ''The user aborted a request.''\<rparr>)" by code_simp
  show ?thesis
    using C2_fallback [OF k p, THEN conjunct2, THEN conjunct1]
      C2_fallback [OF k a, THEN conjunct1] np ca
    by blast
qed

text \<open>
  C2 as stated fails: a batch call refused with status 503 until its two retries are used up
  ends in that status error, not in a parse failure, and the orchestrator still falls back
  to the single-item calls and returns their results.
\<close>

theorem C2_counterexample:
  "fst (scheduledFetch (batchFetch busy_batch_net [js ''aa'', js ''bb'']) (getRetryOpts ex_openai_cfg)
        ex_rnd ex_world)
     = Inl (ErrorWithStatus (js ''HTTP 503: busy'') 503)
 \<and> fst (openaiBatchTranslateArray busy_batch_net ex_openai_cfg [js ''aa'', js ''bb''] ex_rnd ex_world)
     = Inr [js ''<aa>'', js ''<bb>'']
 \<and> requests (snd (openaiBatchTranslateArray busy_batch_net ex_openai_cfg [js ''aa'', js ''bb'']
        ex_rnd ex_world))
     = [OpenaiBatch [js ''aa'', js ''bb''], OpenaiBatch [js ''aa'', js ''bb''],
        OpenaiBatch [js ''aa'', js ''bb''], OpenaiSingle (js ''aa''), OpenaiSingle (js ''bb'')]"
  by code_simp

text \<open>
  C1, as the code has it. \<open>translateTextsV2\<close> does not deduplicate. Every position of the
  input whose text is neither passed through nor found in the cache becomes a pending entry
  of its own (\<open>pe\<close>, in the order of the input), so two identical such texts give two
  entries with the same text and the same key. The network collaborator is handed the texts
  of all pending entries, a repeated text as often as it occurs: the requests issued are
  those of \<open>provider_calls\<close> on that list, which are as \<open>provider_trace\<close> tells (for the custom
  provider one request carrying the whole list, issued once or more). When the call
  succeeds, the position of every pending entry receives the collaborator's result for that
  entry (the empty string where the collaborator returned too few results), and one cache
  write is made for each pending entry, in order, with its key and that result; the output
  is as long as the input. With no pending entry nothing is requested or written.
\<close>

theorem C1_no_dedup:
  assumes "translateTextsV2 lc net cfg now rnd texts w = (Inr outs, w')"
    and "pe = pending_entries lc cfg now (cache w) texts"
  shows "length outs = length texts
       \<and> (pe = [] \<longrightarrow> requests w' = requests w \<and> writes w' = writes w)
       \<and> (pe \<noteq> [] \<longrightarrow>
            (\<exists>arr w2 new. provider_calls net cfg rnd (map p_text pe) w = (Inr arr, w2)
               \<and> requests w2 = requests w @ new \<and> provider_trace cfg (map p_text pe) new
               \<and> requests w' = requests w2 \<and> net_state w' = net_state w2
               \<and> (\<forall>j<length pe. outs ! p_idx (pe ! j) = Str (if j < length arr then arr ! j else []))
               \<and> writes w' = writes w
                    @ map (\<lambda>j. (p_key (pe ! j), Str (if j < length arr then arr ! j else [])))
                        [0..<length pe]))
       \<and> (\<forall>i j. i < j \<and> j < length texts \<and> texts ! i = texts ! j
              \<and> miss lc cfg now (cache w) (texts ! i) \<longrightarrow>
            (\<exists>a b. a < b \<and> b < length pe
               \<and> p_idx (pe ! a) = i \<and> p_idx (pe ! b) = j
               \<and> p_text (pe ! a) = texts ! i \<and> p_text (pe ! b) = texts ! i
               \<and> p_key (pe ! a) = key_of lc cfg (texts ! i)
               \<and> p_key (pe ! b) = key_of lc cfg (texts ! i)))"
proof -
  note r = translate_result [OF assms]
  have d: "\<forall>i j. i < j \<and> j < length texts \<and> texts ! i = texts ! j
              \<and> miss lc cfg now (cache w) (texts ! i) \<longrightarrow>
            (\<exists>a b. a < b \<and> b < length pe
               \<and> p_idx (pe ! a) = i \<and> p_idx (pe ! b) = j
               \<and> p_text (pe ! a) = texts ! i \<and> p_text (pe ! b) = texts ! i
               \<and> p_key (pe ! a) = key_of lc cfg (texts ! i)
               \<and> p_key (pe ! b) = key_of lc cfg (texts ! i))"
    unfolding assms(2) using pending_entries_dup [of _ _ texts lc cfg now "cache w"] by blast
  from r [THEN conjunct1] r [THEN conjunct2, THEN conjunct1] r [THEN conjunct2, THEN conjunct2] d
  show ?thesis by (intro conjI)
qed

theorem C1_no_dedup_witness:
  "fst (translateTextsV2 toLowerCase echo_net ex_cfg 0 ex_rnd ex_texts ex_world)
     = Inr [Str (js ''<hello>''), Str (js ''<hello>''), Str (js ''!'')]
 \<and> map p_idx (pending_entries toLowerCase ex_cfg 0 (cache ex_world) ex_texts) = [0, 1]
 \<and> map p_text (pending_entries toLowerCase ex_cfg 0 (cache ex_world) ex_texts) = [js ''hello'', js ''hello'']
 \<and> (\<exists>arr w2 new.
        provider_calls echo_net ex_cfg ex_rnd [js ''hello'', js ''hello''] ex_world = (Inr arr, w2)
      \<and> requests w2 = requests ex_world @ new
      \<and> provider_trace ex_cfg [js ''hello'', js ''hello''] new
      \<and> requests (snd (translateTextsV2 toLowerCase echo_net ex_cfg 0 ex_rnd ex_texts ex_world))
           = requests w2
      \<and> [Str (js ''<hello>''), Str (js ''<hello>''), Str (js ''!'')] ! 0
           = Str (if 0 < length arr then arr ! 0 else [])
      \<and> [Str (js ''<hello>''), Str (js ''<hello>''), Str (js ''!'')] ! 1
           = Str (if 1 < length arr then arr ! 1 else [])
      \<and> writes (snd (translateTextsV2 toLowerCase echo_net ex_cfg 0 ex_rnd ex_texts ex_world))
           = writes ex_world
             @ map (\<lambda>j. (p_key (pending_entries toLowerCase ex_cfg 0 (cache ex_world) ex_texts ! j),
                         Str (if j < length arr then arr ! j else []))) [0..<2])
 \<and> (\<exists>a b. a < b \<and> b < length (pending_entries toLowerCase ex_cfg 0 (cache ex_world) ex_texts)
       \<and> p_idx (pending_entries toLowerCase ex_cfg 0 (cache ex_world) ex_texts ! a) = 0
       \<and> p_idx (pending_entries toLowerCase ex_cfg 0 (cache ex_world) ex_texts ! b) = 1
       \<and> p_key (pending_entries toLowerCase ex_cfg 0 (cache ex_world) ex_texts ! a)
           = p_key (pending_entries toLowerCase ex_cfg 0 (cache ex_world) ex_texts ! b))
 \<and> pending_entries toLowerCase ex_cfg 0 (cache ex_world) [js ''!''] = []
 \<and> requests (snd (translateTextsV2 toLowerCase echo_net ex_cfg 0 ex_rnd [js ''!''] ex_world))
     = requests ex_world"
proof -
  let ?R = "translateTextsV2 toLowerCase echo_net ex_cfg 0 ex_rnd ex_texts ex_world"
  let ?o = "[Str (js ''<hello>''), Str (js ''<hello>''), Str (js ''!'')]"
  let ?pe = "pending_entries toLowerCase ex_cfg 0 (cache ex_world) ex_texts"
  let ?S = "translateTextsV2 toLowerCase echo_net ex_cfg 0 ex_rnd [js ''!''] ex_world"
  let ?qe = "pending_entries toLowerCase ex_cfg 0 (cache ex_world) [js ''!'']"
  have f: "fst ?R = Inr ?o" by code_simp
  then have h: "?R = (Inr ?o, snd ?R)" by (simp add: prod_eq_iff)
  have pi: "map p_idx ?pe = [0, 1]" by code_simp
  have pt: "map p_text ?pe = [js ''hello'', js ''hello'']" by code_simp
  have len: "length ?pe = 2" using arg_cong [OF pi, of length] by simp
  have ne: "?pe \<noteq> []" using len by auto
  have i0: "p_idx (?pe ! 0) = 0" and i1: "p_idx (?pe ! 1) = 1"
    using arg_cong [OF pi, of "\<lambda>l. l ! 0"] arg_cong [OF pi, of "\<lambda>l. l ! 1"] len by simp_all
  have m: "miss toLowerCase ex_cfg 0 (cache ex_world) (ex_texts ! 0)" by code_simp
  have e: "(0::nat) < 1 \<and> 1 < length ex_texts \<and> ex_texts ! 0 = ex_texts ! 1
      \<and> miss toLowerCase ex_cfg 0 (cache ex_world) (ex_texts ! 0)"
    using m by (simp add: ex_texts_def)
  have fs: "fst ?S = Inr [Str (js ''!'')]" by code_simp
  then have hs: "?S = (Inr [Str (js ''!'')], snd ?S)" by (simp add: prod_eq_iff)
  have qe: "?qe = []" by code_simp
  note c = C1_no_dedup [OF h refl]
  note s = C1_no_dedup [OF hs refl]
  from c [THEN conjunct2, THEN conjunct2, THEN conjunct1, rule_format, OF ne]
  obtain arr w2 new where
    p: "provider_calls echo_net ex_cfg ex_rnd (map p_text ?pe) ex_world = (Inr arr, w2)"
    and rq: "requests w2 = requests ex_world @ new" "provider_trace ex_cfg (map p_text ?pe) new"
      "requests (snd ?R) = requests w2"
    and vals: "\<forall>j<length ?pe. ?o ! p_idx (?pe ! j) = Str (if j < length arr then arr ! j else [])"
    and wr: "writes (snd ?R) = writes ex_world
        @ map (\<lambda>j. (p_key (?pe ! j), Str (if j < length arr then arr ! j else []))) [0..<length ?pe]"
    by blast
  have v0: "?o ! 0 = Str (if 0 < length arr then arr ! 0 else [])"
    using vals [rule_format, of 0] len i0 by simp
  have v1: "?o ! 1 = Str (if 1 < length arr then arr ! 1 else [])"
    using vals [rule_format, of 1] len i1 by simp
  have A: "\<exists>arr w2 new.
        provider_calls echo_net ex_cfg ex_rnd [js ''hello'', js ''hello''] ex_world = (Inr arr, w2)
      \<and> requests w2 = requests ex_world @ new
      \<and> provider_trace ex_cfg [js ''hello'', js ''hello''] new
      \<and> requests (snd ?R) = requests w2
      \<and> ?o ! 0 = Str (if 0 < length arr then arr ! 0 else [])
      \<and> ?o ! 1 = Str (if 1 < length arr then arr ! 1 else [])
      \<and> writes (snd ?R) = writes ex_world
             @ map (\<lambda>j. (p_key (?pe ! j), Str (if j < length arr then arr ! j else []))) [0..<2]"
    using p rq v0 v1 wr unfolding pt len by blast
  from c [THEN conjunct2, THEN conjunct2, THEN conjunct2, rule_format, OF e] have B:
    "\<exists>a b. a < b \<and> b < length ?pe \<and> p_idx (?pe ! a) = 0 \<and> p_idx (?pe ! b) = 1
       \<and> p_key (?pe ! a) = p_key (?pe ! b)"
    by metis
  have C: "requests (snd ?S) = requests ex_world"
    using s [THEN conjunct2, THEN conjunct1, rule_format, OF qe] by simp
  from f pi pt A B qe C show ?thesis by (intro conjI)
qed

text \<open>
  C1 as stated fails: for the input \<open>hello, hello, !\<close> with an empty cache the custom
  provider is sent the text \<open>hello\<close> twice in its one request, and two cache writes are made
  for its key; without batching the openai-compatible provider is called twice for it.
\<close>

theorem C1_counterexample:
  "ex_texts ! 0 = ex_texts ! 1
 \<and> miss toLowerCase ex_cfg 0 (cache ex_world) (ex_texts ! 0)
 \<and> requests (snd (translateTextsV2 toLowerCase echo_net ex_cfg 0 ex_rnd ex_texts ex_world))
     = [CustomBatch [js ''hello'', js ''hello'']]
 \<and> writes (snd (translateTextsV2 toLowerCase echo_net ex_cfg 0 ex_rnd ex_texts ex_world))
     = [(key_of toLowerCase ex_cfg (js ''hello''), Str (js ''<hello>'')),
        (key_of toLowerCase ex_cfg (js ''hello''), Str (js ''<hello>''))]
 \<and> requests (snd (translateTextsV2 toLowerCase echo_net (ex_openai_cfg\<lparr>batching_enabled := False\<rparr>) 0 ex_rnd
        ex_texts ex_world))
     = [OpenaiSingle (js ''hello''), OpenaiSingle (js ''hello'')]"
  by code_simp

end
